theory Spec2Isabelle
  imports Complex_Main "HOL-Library.Sublist" "HOL-Library.Multiset" "HOL-Library.AList"
begin

section \<open>Smith-Waterman local alignment: the scoring scheme and the alignment engine\<close>

text \<open>
  A shallow embedding of \<^verbatim>\<open>src/scoring_scheme.py\<close> and \<^verbatim>\<open>src/smith_waterman.py\<close>.

  Conventions of the model:
  \<^item> Python floats are modelled as \<open>real\<close>: scores are added, compared and maximised exactly.
    Rounding, infinities and NaN are outside the model.
  \<^item> A sequence is a Python \<open>str\<close>, modelled as \<open>string\<close>; a symbol is one character. The
    one-character string \<open>sequence1[i - 1]\<close> is \<open>[sequence1 ! (i - 1)]\<close>.
  \<^item> A raised exception is a value of type \<open>error\<close>; a function that may raise returns
    \<open>error + 'a\<close> with \<open>Inl\<close> for the exception.
  \<^item> The \<open>while\<close> loop of the backtrace is a \<open>partial_function\<close>: \<open>None\<close> means that the loop
    does not return.
\<close>

subsection \<open>Exceptions and loops\<close>

datatype error = ValueError | AssertionError | KeyError | IndexError | TypeError | OSError

text \<open>A \<^verbatim>\<open>for\<close> loop over a list whose body may raise: the first exception ends the loop.\<close>

fun for_loop :: "('s \<Rightarrow> 'a \<Rightarrow> error + 's) \<Rightarrow> 'a list \<Rightarrow> 's \<Rightarrow> error + 's" where
  "for_loop body [] s = Inr s"
| "for_loop body (x # xs) s =
     (case body s x of Inl e \<Rightarrow> Inl e | Inr s' \<Rightarrow> for_loop body xs s')"

subsection \<open>ScoringScheme\<close>

text \<open>
  The fields of the class. \<open>index_by_symbol\<close> is a Python dict (insertion-ordered, keys are the
  whitespace-separated tokens of the header line), modelled as an association list;
  \<open>scoring_matrix\<close> is a square numpy array, modelled as a list of rows. Both are \<open>None\<close> until
  a matrix is loaded.
\<close>

record scoring_scheme =
  match_score :: real
  mismatch_penalty :: real
  gap_penalty :: real
  gap_start_penalty :: real
  index_by_symbol :: "(string \<times> nat) list option"
  scoring_matrix :: "real list list option"

text \<open>\<^verbatim>\<open>__init__\<close> and its default arguments.\<close>

definition ScoringScheme :: "real \<Rightarrow> real \<Rightarrow> real \<Rightarrow> real \<Rightarrow> scoring_scheme" where
  "ScoringScheme ms mp gp gsp =
     \<lparr>match_score = ms, mismatch_penalty = mp, gap_penalty = gp, gap_start_penalty = gsp,
      index_by_symbol = None, scoring_matrix = None\<rparr>"

definition default_scheme :: scoring_scheme where
  "default_scheme = ScoringScheme 1 (- 1) (- 1) 0"

definition gap :: char where
  "gap = CHR ''-''"

text \<open>\<^verbatim>\<open>self.scoring_matrix[row][col]\<close> with non-negative indices: numpy raises out of range.\<close>

definition matrix_get :: "real list list \<Rightarrow> nat \<Rightarrow> nat \<Rightarrow> error + real" where
  "matrix_get m row col =
     (if row < length m \<and> col < length (m ! row) then Inr (m ! row ! col) else Inl IndexError)"

text \<open>
  The body of the loop of \<^verbatim>\<open>score\<close>, on the running score and one item
  \<open>(i, (symbol1, symbol2))\<close> of \<^verbatim>\<open>enumerate(zip(sequence1, sequence2))\<close>. The two asserts
  raise \<open>AssertionError\<close>; \<^verbatim>\<open>symbol1 in self.index_by_symbol\<close> raises \<open>TypeError\<close> when the
  index is \<open>None\<close>.
\<close>

definition score_step ::
  "scoring_scheme \<Rightarrow> string \<Rightarrow> string \<Rightarrow> real \<Rightarrow> nat \<times> char \<times> char \<Rightarrow> error + real" where
  "score_step sc sequence1 sequence2 score = (\<lambda>(i, symbol1, symbol2).
     if symbol1 = gap \<and> symbol2 = gap then Inl ValueError
     else if symbol1 = gap then
       Inr (score + gap_penalty sc
            + (if 0 < i \<and> sequence1 ! (i - 1) \<noteq> gap then gap_start_penalty sc else 0))
     else if symbol2 = gap then
       Inr (score + gap_penalty sc
            + (if 0 < i \<and> sequence2 ! (i - 1) \<noteq> gap then gap_start_penalty sc else 0))
     else (case scoring_matrix sc of
         Some m \<Rightarrow>
           (case index_by_symbol sc of
              None \<Rightarrow> Inl TypeError
            | Some ix \<Rightarrow>
               (case map_of ix [symbol1] of
                  None \<Rightarrow> Inl AssertionError
                | Some row \<Rightarrow>
                   (case map_of ix [symbol2] of
                      None \<Rightarrow> Inl AssertionError
                    | Some col \<Rightarrow>
                       (case matrix_get m row col of
                          Inl e \<Rightarrow> Inl e
                        | Inr v \<Rightarrow> Inr (score + v)))))
       | None \<Rightarrow>
           Inr (score + (if symbol1 = symbol2 then match_score sc else mismatch_penalty sc))))"

text \<open>\<^verbatim>\<open>score\<close> (and \<^verbatim>\<open>__call__\<close>, which only forwards to it).\<close>

definition score :: "scoring_scheme \<Rightarrow> string \<Rightarrow> string \<Rightarrow> error + real" where
  "score sc sequence1 sequence2 =
     for_loop (score_step sc sequence1 sequence2) (enumerate 0 (zip sequence1 sequence2)) 0"

subsection \<open>smith\_waterman: filling the matrix\<close>

text \<open>
  The numpy array \<open>A\<close> is a function of the index pair. \<^verbatim>\<open>np.empty\<close> leaves the array
  uninitialised: what it holds is a parameter \<open>uninit\<close> of the model, and
  \<open>initial_matrix uninit\<close> is the array after row 0 and column 0 have been set to 0.
\<close>

type_synonym dp_matrix = "nat \<times> nat \<Rightarrow> real"

type_synonym fill_state = "dp_matrix \<times> real \<times> (nat \<times> nat) list"

definition max4 :: "real \<Rightarrow> real \<Rightarrow> real \<Rightarrow> real \<Rightarrow> real" where
  "max4 a b c d = max (max (max a b) c) d"

text \<open>The body of the inner loop, on the state \<open>(A, best_score, best_locations)\<close>.\<close>

definition fill_cell ::
  "scoring_scheme \<Rightarrow> string \<Rightarrow> string \<Rightarrow> nat \<Rightarrow> fill_state \<Rightarrow> nat \<Rightarrow> error + fill_state" where
  "fill_cell sc sequence1 sequence2 i = (\<lambda>(A, best_score, best_locations) j.
     case score sc [sequence1 ! (i - 1)] [sequence2 ! (j - 1)] of
       Inl e \<Rightarrow> Inl e
     | Inr d \<Rightarrow>
         let v = max4 (A (i - 1, j - 1) + d)
                      (A (i - 1, j) + gap_penalty sc)
                      (A (i, j - 1) + gap_penalty sc)
                      0;
             best_locations' =
               (if v = best_score then best_locations @ [(i, j)] else best_locations)
         in Inr (A((i, j) := v),
                 if v > best_score then (v, [(i, j)]) else (best_score, best_locations')))"

text \<open>The two nested loops, from the initialised array, \<open>best_score = 0.0\<close> and no location.\<close>

definition initial_matrix :: "dp_matrix \<Rightarrow> dp_matrix" where
  "initial_matrix uninit = (\<lambda>(i, j). if i = 0 \<or> j = 0 then 0 else uninit (i, j))"

definition fill_uninit ::
  "dp_matrix \<Rightarrow> scoring_scheme \<Rightarrow> string \<Rightarrow> string \<Rightarrow> error + fill_state" where
  "fill_uninit uninit sc sequence1 sequence2 =
     (let max_i = length sequence1 + 1; max_j = length sequence2 + 1
      in for_loop (\<lambda>st i. for_loop (fill_cell sc sequence1 sequence2 i) [1..<max_j] st)
           [1..<max_i] (initial_matrix uninit, 0, []))"

text \<open>
  \<open>fill\<close> is the fill of an array whose uninitialised cells happen to hold 0. What they hold
  has no influence on the result of \<open>smith_waterman\<close> (theorem \<open>smith_waterman_uninit_eq\<close>
  below): every cell with \<open>i, j \<ge> 1\<close> is written before it is read.
\<close>

definition fill :: "scoring_scheme \<Rightarrow> string \<Rightarrow> string \<Rightarrow> error + fill_state" where
  "fill = fill_uninit (\<lambda>_. 0)"

subsection \<open>smith\_waterman: the backtrace\<close>

text \<open>A partial has the form \<open>(alignment1, alignment2, i, j)\<close>.\<close>

type_synonym partial = "string \<times> string \<times> nat \<times> nat"

type_synonym alignment = "string \<times> string"

text \<open>
  The body of the inner \<^verbatim>\<open>for\<close> loop of the backtrace, on the state
  \<open>(alignments, next_partials)\<close>. Indices are natural numbers: the branch that reads
  \<open>A[i - 1, j - 1]\<close> is reached only at a non-zero cell, which for the filled matrix has
  \<open>i, j \<ge> 1\<close> (lemma \<open>fill_inv_filled\<close> below: row 0 and column 0 hold 0), so Python's
  negative indices never occur.
\<close>

definition backtrace_step ::
  "scoring_scheme \<Rightarrow> string \<Rightarrow> string \<Rightarrow> dp_matrix \<Rightarrow>
   alignment list \<times> partial list \<Rightarrow> partial \<Rightarrow> error + alignment list \<times> partial list" where
  "backtrace_step sc sequence1 sequence2 A =
     (\<lambda>(alignments, next_partials) (alignment1, alignment2, i, j).
       if A (i, j) = 0 then Inr (alignments @ [(alignment1, alignment2)], next_partials)
       else
         (case score sc [sequence1 ! (i - 1)] [sequence2 ! (j - 1)] of
            Inl e \<Rightarrow> Inl e
          | Inr d \<Rightarrow>
              let np1 = (if A (i, j) = A (i - 1, j - 1) + d
                         then next_partials @
                              [(sequence1 ! (i - 1) # alignment1, sequence2 ! (j - 1) # alignment2,
                                i - 1, j - 1)]
                         else next_partials);
                  np2 = (if A (i, j) = A (i - 1, j) + gap_penalty sc
                         then np1 @ [(sequence1 ! (i - 1) # alignment1, gap # alignment2, i - 1, j)]
                         else np1);
                  np3 = (if A (i, j) = A (i, j - 1) + gap_penalty sc
                         then np2 @ [(gap # alignment1, sequence2 ! (j - 1) # alignment2, i, j - 1)]
                         else np2)
              in Inr (alignments, np3)))"

text \<open>The \<^verbatim>\<open>while len(partials) > 0\<close> loop.\<close>

partial_function (option) backtrace ::
  "scoring_scheme \<Rightarrow> string \<Rightarrow> string \<Rightarrow> dp_matrix \<Rightarrow> partial list \<Rightarrow> alignment list \<Rightarrow>
   (error + alignment list) option" where
  "backtrace sc sequence1 sequence2 A partials alignments =
     (if length partials > 0 then
        (case for_loop (backtrace_step sc sequence1 sequence2 A) partials (alignments, []) of
           Inl e \<Rightarrow> Some (Inl e)
         | Inr (alignments', next_partials) \<Rightarrow>
             backtrace sc sequence1 sequence2 A next_partials alignments')
      else Some (Inr alignments))"

declare backtrace.simps [code]

text \<open>
  \<^verbatim>\<open>smith_waterman(sequence1, sequence2, scoring_scheme)\<close>, for an array that \<^verbatim>\<open>np.empty\<close>
  returns with the content \<open>uninit\<close>: \<open>None\<close> if the backtrace does not return, \<open>Some (Inl e)\<close>
  if \<open>e\<close> is raised, \<open>Some (Inr (best_score, alignments))\<close> otherwise.
\<close>

definition smith_waterman_uninit ::
  "dp_matrix \<Rightarrow> string \<Rightarrow> string \<Rightarrow> scoring_scheme \<Rightarrow>
   (error + real \<times> alignment list) option" where
  "smith_waterman_uninit uninit sequence1 sequence2 sc =
     (case fill_uninit uninit sc sequence1 sequence2 of
        Inl e \<Rightarrow> Some (Inl e)
      | Inr (A, best_score, best_locations) \<Rightarrow>
          (case backtrace sc sequence1 sequence2 A
                  (map (\<lambda>(i, j). ([], [], i, j)) best_locations) [] of
             None \<Rightarrow> None
           | Some (Inl e) \<Rightarrow> Some (Inl e)
           | Some (Inr alignments) \<Rightarrow> Some (Inr (best_score, alignments))))"

definition smith_waterman ::
  "string \<Rightarrow> string \<Rightarrow> scoring_scheme \<Rightarrow> (error + real \<times> alignment list) option" where
  "smith_waterman = smith_waterman_uninit (\<lambda>_. 0)"

subsection \<open>ScoringScheme.load\_matrix\<close>

text \<open>
  The file is the list of its lines, as \<^verbatim>\<open>readline\<close> and the iteration over the file yield
  them (each with its line end); \<open>None\<close> is a file that cannot be opened. Characters are the
  code points below 256.

  \<^verbatim>\<open>str.split()\<close> and \<^verbatim>\<open>str.strip()\<close> cut at the characters for which \<^verbatim>\<open>str.isspace\<close>
  holds.
\<close>

definition isspace :: "char \<Rightarrow> bool" where
  "isspace c = (c \<in> set [CHR 0x09, CHR 0x0A, CHR 0x0B, CHR 0x0C, CHR 0x0D, CHR 0x1C, CHR 0x1D,
                          CHR 0x1E, CHR 0x1F, CHR 0x20, CHR 0x85, CHR 0xA0])"

fun split_aux :: "string \<Rightarrow> string \<Rightarrow> string list" where
  "split_aux cur [] = (if cur = [] then [] else [cur])"
| "split_aux cur (c # cs) =
     (if isspace c then (if cur = [] then split_aux [] cs else cur # split_aux [] cs)
      else split_aux (cur @ [c]) cs)"

definition str_split :: "string \<Rightarrow> string list" where
  "str_split s = split_aux [] s"

definition str_strip :: "string \<Rightarrow> string" where
  "str_strip s = rev (dropWhile isspace (rev (dropWhile isspace s)))"

text \<open>
  \<^verbatim>\<open>float(val)\<close> is a parameter \<open>float_of\<close> of the model (\<open>None\<close>: \<open>ValueError\<close>). For
  concrete files, \<open>py_float\<close> reads the plain decimal spellings of Python's float syntax: an
  optional sign, digits, and an optional point with digits on either side. Exponents,
  underscores, \<^verbatim>\<open>inf\<close> and \<^verbatim>\<open>nan\<close> are not covered by \<open>py_float\<close>.
\<close>

definition digit_val :: "char \<Rightarrow> nat option" where
  "digit_val c = map_of (zip ''0123456789'' [0..<10]) c"

definition digits_val :: "string \<Rightarrow> nat option" where
  "digits_val s =
     fold (\<lambda>c acc. case (acc, digit_val c) of (Some a, Some d) \<Rightarrow> Some (10 * a + d) | _ \<Rightarrow> None)
       s (Some 0)"

definition py_float :: "string \<Rightarrow> real option" where
  "py_float s =
     (let (sign, body) = (case s of
              c # r \<Rightarrow> if c = CHR ''-'' then (- 1, r) else if c = CHR ''+'' then (1, r) else (1, s)
            | [] \<Rightarrow> (1, s));
          ip = takeWhile (\<lambda>c. c \<noteq> CHR ''.'') body;
          fp = drop 1 (dropWhile (\<lambda>c. c \<noteq> CHR ''.'') body)
      in if ip = [] \<and> fp = [] then None
         else (case (digits_val ip, digits_val fp) of
                 (Some a, Some b) \<Rightarrow> Some (sign * (real a + real b / 10 ^ length fp))
               | _ \<Rightarrow> None))"

text \<open>
  \<^verbatim>\<open>headline = f.readline()\<close> and the \<^verbatim>\<open>while headline[0] == "#"\<close> loop. At the end of the
  file \<^verbatim>\<open>readline\<close> returns the empty string, and \<^verbatim>\<open>headline[0]\<close> raises \<open>IndexError\<close>.
  The result is the header line and the lines not yet read.
\<close>

fun skip_comments :: "string list \<Rightarrow> error + string \<times> string list" where
  "skip_comments [] = Inl IndexError"
| "skip_comments (headline # rest) =
     (case headline of
        [] \<Rightarrow> Inl IndexError
      | c # _ \<Rightarrow> if c = CHR ''#'' then skip_comments rest else Inr (headline, rest))"

text \<open>
  The dict comprehension \<^verbatim>\<open>{symbol.strip(): i for i, symbol in enumerate(headline.split())}\<close>:
  a key that comes again keeps its place and takes the later index.
\<close>

definition header_index :: "string \<Rightarrow> (string \<times> nat) list" where
  "header_index headline =
     fold (\<lambda>(i, symbol) d. AList.update (str_strip symbol) i d)
       (enumerate 0 (str_split headline)) []"

text \<open>
  The loops that fill the matrix mutate \<open>self.scoring_matrix\<close> in place, so an exception leaves
  the entries written so far: both loops return the exception, if any, and the matrix as it
  is when they end. In \<^verbatim>\<open>self.scoring_matrix[i][j] = float(val)\<close> the right-hand side is
  evaluated first (\<open>ValueError\<close>), then the two indices (\<open>IndexError\<close>).
\<close>

fun fill_row ::
  "(string \<Rightarrow> real option) \<Rightarrow> nat \<Rightarrow> (nat \<times> string) list \<Rightarrow> real list list \<Rightarrow>
   error option \<times> real list list" where
  "fill_row float_of i [] m = (None, m)"
| "fill_row float_of i ((j, val) # row) m =
     (case float_of val of
        None \<Rightarrow> (Some ValueError, m)
      | Some x \<Rightarrow>
          if i < length m \<and> j < length (m ! i)
          then fill_row float_of i row (m[i := (m ! i)[j := x]])
          else (Some IndexError, m))"

text \<open>
  \<^verbatim>\<open>for line in f\<close>: \<^verbatim>\<open>row.pop(0)\<close> raises \<open>IndexError\<close> on a line without a token,
  \<^verbatim>\<open>self.index_by_symbol[symbol]\<close> raises \<open>KeyError\<close> for a symbol that is not in the header.
\<close>

fun fill_rows ::
  "(string \<Rightarrow> real option) \<Rightarrow> (string \<times> nat) list \<Rightarrow> string list \<Rightarrow> real list list \<Rightarrow>
   error option \<times> real list list" where
  "fill_rows float_of ix [] m = (None, m)"
| "fill_rows float_of ix (line # rest) m =
     (case str_split line of
        [] \<Rightarrow> (Some IndexError, m)
      | symbol # row \<Rightarrow>
          (case map_of ix symbol of
             None \<Rightarrow> (Some KeyError, m)
           | Some i \<Rightarrow>
               (case fill_row float_of i (enumerate 0 row) m of
                  (Some e, m') \<Rightarrow> (Some e, m')
                | (None, m') \<Rightarrow> fill_rows float_of ix rest m')))"

text \<open>
  \<^verbatim>\<open>load_matrix\<close> returns the exception raised, if any, and the scheme as the call leaves it:
  the two fields are assigned before the rows are read.
\<close>

definition load_matrix ::
  "(string \<Rightarrow> real option) \<Rightarrow> string list option \<Rightarrow> scoring_scheme \<Rightarrow>
   error option \<times> scoring_scheme" where
  "load_matrix float_of file sc =
     (case file of
        None \<Rightarrow> (Some OSError, sc)
      | Some lines \<Rightarrow>
          (case skip_comments lines of
             Inl e \<Rightarrow> (Some e, sc)
           | Inr (headline, rest) \<Rightarrow>
               let ix = header_index headline;
                   n_symbols = length ix;
                   (e, m) = fill_rows float_of ix rest (replicate n_symbols (replicate n_symbols 0))
               in (e, sc\<lparr>index_by_symbol := Some ix, scoring_matrix := Some m\<rparr>)))"

section \<open>The recurrence and the tied paths, as the specification words them\<close>

text \<open>
  The definitions of this section are not translated from the code: they state what the
  matrix fill and the backtrace are meant to compute, and the lemmas of the next section
  relate the code to them.

  \<open>sub sc a b\<close> is the score of symbol \<open>a\<close> against symbol \<open>b\<close> where scoring does not raise,
  and \<open>recurrence\<close> is the Smith-Waterman recurrence with the boundary row and column 0.
\<close>

definition sub :: "scoring_scheme \<Rightarrow> char \<Rightarrow> char \<Rightarrow> real" where
  "sub sc a b = (case score sc [a] [b] of Inr v \<Rightarrow> v | Inl e \<Rightarrow> 0)"

fun recurrence :: "scoring_scheme \<Rightarrow> string \<Rightarrow> string \<Rightarrow> nat \<Rightarrow> nat \<Rightarrow> real" where
  "recurrence sc s1 s2 0 j = 0"
| "recurrence sc s1 s2 (Suc i) 0 = 0"
| "recurrence sc s1 s2 (Suc i) (Suc j) =
     max4 (recurrence sc s1 s2 i j + sub sc (s1 ! i) (s2 ! j))
          (recurrence sc s1 s2 i (Suc j) + gap_penalty sc)
          (recurrence sc s1 s2 (Suc i) j + gap_penalty sc)
          0"

definition cell_value :: "scoring_scheme \<Rightarrow> string \<Rightarrow> string \<Rightarrow> nat \<times> nat \<Rightarrow> real" where
  "cell_value sc s1 s2 c = recurrence sc s1 s2 (fst c) (snd c)"

text \<open>The cells \<open>(i, j)\<close> with \<open>1 \<le> i \<le> n\<close> and \<open>1 \<le> j \<le> m\<close> in row-major order.\<close>

definition grid :: "nat \<Rightarrow> nat \<Rightarrow> (nat \<times> nat) list" where
  "grid n m = concat (map (\<lambda>i. map (Pair i) [1..<Suc m]) [1..<Suc n])"

text \<open>Every symbol of the first sequence can be scored against every symbol of the second.\<close>

definition scores_ok :: "scoring_scheme \<Rightarrow> string \<Rightarrow> string \<Rightarrow> bool" where
  "scores_ok sc s1 s2 = (\<forall>a \<in> set s1. \<forall>b \<in> set s2. \<exists>v. score sc [a] [b] = Inr v)"

text \<open>
  The loop invariant of the fill after the cells \<open>pre\<close>, from the initial matrix \<open>A0\<close>: the
  matrix holds the recurrence on \<open>pre\<close> and is as \<open>A0\<close> elsewhere, \<open>b\<close> is the greatest value seen (or 0), and \<open>L\<close> lists the cells of
  \<open>pre\<close> that hold \<open>b\<close>, in order.
\<close>

definition fill_inv ::
  "dp_matrix \<Rightarrow> scoring_scheme \<Rightarrow> string \<Rightarrow> string \<Rightarrow> (nat \<times> nat) list \<Rightarrow> fill_state \<Rightarrow>
   bool" where
  "fill_inv A0 sc s1 s2 pre = (\<lambda>(A, b, L).
     (\<forall>c. A c = (if c \<in> set pre then cell_value sc s1 s2 c else A0 c)) \<and>
     0 \<le> b \<and> (b = 0 \<or> b \<in> cell_value sc s1 s2 ` set pre) \<and>
     (\<forall>c \<in> set pre. cell_value sc s1 s2 c \<le> b) \<and>
     L = filter (\<lambda>c. cell_value sc s1 s2 c = b) pre)"

definition filled :: "scoring_scheme \<Rightarrow> string \<Rightarrow> string \<Rightarrow> dp_matrix \<Rightarrow> bool" where
  "filled sc s1 s2 A =
     (\<forall>i j. i \<le> length s1 \<and> j \<le> length s2 \<longrightarrow> A (i, j) = recurrence sc s1 s2 i j)"

text \<open>
  \<open>paths sc s1 s2 (a1, a2, i, j)\<close>: the alignments that the tied paths from cell \<open>(i, j)\<close> back
  to a cell of value 0 complete, starting from the partial alignment \<open>(a1, a2)\<close>, depth first.
  \<open>emit\<close> and \<open>succs\<close> are one step of it: what a partial contributes to the result, and the
  partials it is replaced by.
\<close>

fun paths :: "scoring_scheme \<Rightarrow> string \<Rightarrow> string \<Rightarrow> partial \<Rightarrow> alignment list" where
  "paths sc s1 s2 (a1, a2, i, j) =
     (if i = 0 \<or> j = 0 \<or> recurrence sc s1 s2 i j = 0 then [(a1, a2)]
      else
        (if recurrence sc s1 s2 i j =
              recurrence sc s1 s2 (i - 1) (j - 1) + sub sc (s1 ! (i - 1)) (s2 ! (j - 1))
         then paths sc s1 s2 (s1 ! (i - 1) # a1, s2 ! (j - 1) # a2, i - 1, j - 1) else []) @
        (if recurrence sc s1 s2 i j = recurrence sc s1 s2 (i - 1) j + gap_penalty sc
         then paths sc s1 s2 (s1 ! (i - 1) # a1, gap # a2, i - 1, j) else []) @
        (if recurrence sc s1 s2 i j = recurrence sc s1 s2 i (j - 1) + gap_penalty sc
         then paths sc s1 s2 (gap # a1, s2 ! (j - 1) # a2, i, j - 1) else []))"

declare paths.simps [simp del]

definition emit :: "scoring_scheme \<Rightarrow> string \<Rightarrow> string \<Rightarrow> partial \<Rightarrow> alignment list" where
  "emit sc s1 s2 = (\<lambda>(a1, a2, i, j).
     if i = 0 \<or> j = 0 \<or> recurrence sc s1 s2 i j = 0 then [(a1, a2)] else [])"

definition succs :: "scoring_scheme \<Rightarrow> string \<Rightarrow> string \<Rightarrow> partial \<Rightarrow> partial list" where
  "succs sc s1 s2 = (\<lambda>(a1, a2, i, j).
     if i = 0 \<or> j = 0 \<or> recurrence sc s1 s2 i j = 0 then []
     else
        (if recurrence sc s1 s2 i j =
              recurrence sc s1 s2 (i - 1) (j - 1) + sub sc (s1 ! (i - 1)) (s2 ! (j - 1))
         then [(s1 ! (i - 1) # a1, s2 ! (j - 1) # a2, i - 1, j - 1)] else []) @
        (if recurrence sc s1 s2 i j = recurrence sc s1 s2 (i - 1) j + gap_penalty sc
         then [(s1 ! (i - 1) # a1, gap # a2, i - 1, j)] else []) @
        (if recurrence sc s1 s2 i j = recurrence sc s1 s2 i (j - 1) + gap_penalty sc
         then [(gap # a1, s2 ! (j - 1) # a2, i, j - 1)] else []))"

definition in_grid :: "string \<Rightarrow> string \<Rightarrow> partial \<Rightarrow> bool" where
  "in_grid s1 s2 = (\<lambda>(a1, a2, i, j). i \<le> length s1 \<and> j \<le> length s2)"

definition rank :: "partial \<Rightarrow> nat" where
  "rank = (\<lambda>(a1, a2, i, j). i + j)"

definition start_partial :: "nat \<times> nat \<Rightarrow> partial" where
  "start_partial = (\<lambda>(i, j). ([], [], i, j))"

text \<open>An alignment string with its gap symbols removed.\<close>

definition remove_gaps :: "string \<Rightarrow> string" where
  "remove_gaps a = filter (\<lambda>c. c \<noteq> gap) a"

section \<open>Properties\<close>

subsection \<open>Loops\<close>

lemma for_loop_append:
  "for_loop body (xs @ ys) s =
     (case for_loop body xs s of Inl e \<Rightarrow> Inl e | Inr s' \<Rightarrow> for_loop body ys s')"
  by (induction xs arbitrary: s) (auto split: sum.splits)

lemma for_loop_cong_elems:
  "(\<And>s x. x \<in> set xs \<Longrightarrow> body s x = body' s x) \<Longrightarrow> for_loop body xs s = for_loop body' xs s"
  by (induction xs arbitrary: s) (auto split: sum.splits)

text \<open>Two nested loops are one loop over the pairs, in the order the nested loops visit them.\<close>

lemma for_loop_concat:
  "for_loop (\<lambda>s x. for_loop (body x) (f x) s) xs s =
   for_loop (\<lambda>s (x, y). body x s y) (concat (map (\<lambda>x. map (Pair x) (f x)) xs)) s"
proof (induction xs arbitrary: s)
  case Nil
  then show ?case by simp
next
  case (Cons x xs)
  have inner: "for_loop (\<lambda>s (x, y). body x s y) (map (Pair x) ys) s = for_loop (body x) ys s"
    for ys s
    by (induction ys arbitrary: s) (auto split: sum.splits)
  show ?case
    by (simp add: for_loop_append inner Cons.IH split: sum.splits)
qed

subsection \<open>Scoring one symbol against another\<close>

lemma score_single:
  "score sc [s1] [s2] =
     (if s1 = gap \<and> s2 = gap then Inl ValueError
      else if s1 = gap \<or> s2 = gap then Inr (gap_penalty sc)
      else (case scoring_matrix sc of
          None \<Rightarrow> Inr (if s1 = s2 then match_score sc else mismatch_penalty sc)
        | Some m \<Rightarrow>
            (case index_by_symbol sc of
               None \<Rightarrow> Inl TypeError
             | Some ix \<Rightarrow>
                 (if map_of ix [s1] = None \<or> map_of ix [s2] = None then Inl AssertionError
                  else let row = the (map_of ix [s1]); col = the (map_of ix [s2])
                       in if row < length m \<and> col < length (m ! row) then Inr (m ! row ! col)
                          else Inl IndexError))))"
  by (auto simp: score_def score_step_def enumerate_eq_zip matrix_get_def Let_def
      split: option.splits sum.splits)

text \<open>
  Claim C5. Scoring a pair of single symbols \<open>(s1, s2)\<close>: both the gap symbol raises
  \<open>ValueError\<close> (the invalid-input error); exactly one the gap symbol gives \<open>gap_penalty\<close>;
  otherwise, with a matrix loaded, a symbol absent from the index raises \<open>AssertionError\<close> (the
  precondition error) and two indexed symbols give \<open>matrix[index(s1)][index(s2)]\<close>, a read that
  numpy refuses with \<open>IndexError\<close> when an index lies outside the matrix; with no matrix loaded
  the result is \<open>match_score\<close> for equal symbols and \<open>mismatch_penalty\<close> for different ones.
  (A matrix without an index, which \<^verbatim>\<open>load_matrix\<close> never produces, raises \<open>TypeError\<close>.)
\<close>

theorem score_symbol_pair:
  "score sc [s1] [s2] =
     (if s1 = gap \<and> s2 = gap then Inl ValueError
      else if s1 = gap \<or> s2 = gap then Inr (gap_penalty sc)
      else (case scoring_matrix sc of
          None \<Rightarrow> Inr (if s1 = s2 then match_score sc else mismatch_penalty sc)
        | Some m \<Rightarrow>
            (case index_by_symbol sc of
               None \<Rightarrow> Inl TypeError
             | Some ix \<Rightarrow>
                 (if map_of ix [s1] = None \<or> map_of ix [s2] = None then Inl AssertionError
                  else let row = the (map_of ix [s1]); col = the (map_of ix [s2])
                       in if row < length m \<and> col < length (m ! row) then Inr (m ! row ! col)
                          else Inl IndexError))))"
  by (rule score_single)

subsection \<open>The fill computes the recurrence\<close>

lemma initial_matrix_boundary: "initial_matrix uninit (i, 0) = 0 \<and> initial_matrix uninit (0, j) = 0"
  by (simp add: initial_matrix_def)

lemma initial_matrix_zero: "initial_matrix (\<lambda>_. 0) = (\<lambda>_. 0)"
  by (auto simp: initial_matrix_def)

lemma fill_unfold:
  "fill sc sequence1 sequence2 =
     (let max_i = length sequence1 + 1; max_j = length sequence2 + 1
      in for_loop (\<lambda>st i. for_loop (fill_cell sc sequence1 sequence2 i) [1..<max_j] st)
           [1..<max_i] (\<lambda>_. 0, 0, []))"
  by (simp add: fill_def fill_uninit_def initial_matrix_zero)

lemma smith_waterman_unfold:
  "smith_waterman sequence1 sequence2 sc =
     (case fill sc sequence1 sequence2 of
        Inl e \<Rightarrow> Some (Inl e)
      | Inr (A, best_score, best_locations) \<Rightarrow>
          (case backtrace sc sequence1 sequence2 A
                  (map (\<lambda>(i, j). ([], [], i, j)) best_locations) [] of
             None \<Rightarrow> None
           | Some (Inl e) \<Rightarrow> Some (Inl e)
           | Some (Inr alignments) \<Rightarrow> Some (Inr (best_score, alignments))))"
  by (simp add: smith_waterman_def smith_waterman_uninit_def fill_def)

lemma recurrence_nonneg: "0 \<le> recurrence sc s1 s2 i j"
  by (cases i; cases j) (simp_all add: max4_def)

lemma recurrence_boundary [simp]: "recurrence sc s1 s2 i 0 = 0"
  by (cases i) simp_all

lemma set_grid: "set (grid n m) = {(i, j). 1 \<le> i \<and> i \<le> n \<and> 1 \<le> j \<and> j \<le> m}"
  by (fastforce simp: grid_def simp del: upt_Suc)

lemma grid_Suc: "grid (Suc n) m = grid n m @ map (Pair (Suc n)) [1..<Suc m]"
  by (simp add: grid_def)

lemma fill_cell_step:
  assumes inv: "fill_inv A0 sc s1 s2 pre st"
    and bd: "\<And>i j. A0 (i, 0) = 0 \<and> A0 (0, j) = 0"
    and new: "(Suc i, Suc j) \<notin> set pre"
    and diag: "(i, j) \<in> set pre \<or> i = 0 \<or> j = 0"
    and up: "(i, Suc j) \<in> set pre \<or> i = 0"
    and left: "(Suc i, j) \<in> set pre \<or> j = 0"
    and sc: "score sc [s1 ! i] [s2 ! j] = Inr d"
  shows "\<exists>st'. fill_cell sc s1 s2 (Suc i) st (Suc j) = Inr st' \<and>
               fill_inv A0 sc s1 s2 (pre @ [(Suc i, Suc j)]) st'"
proof -
  obtain A b L where st: "st = (A, b, L)" by (cases st)
  let ?cv = "cell_value sc s1 s2"
  from inv st have A: "\<And>c. A c = (if c \<in> set pre then ?cv c else A0 c)"
    and b0: "0 \<le> b" and batt: "b = 0 \<or> b \<in> ?cv ` set pre"
    and bub: "\<And>c. c \<in> set pre \<Longrightarrow> ?cv c \<le> b"
    and L: "L = filter (\<lambda>c. ?cv c = b) pre"
    by (auto simp: fill_inv_def)
  have Ad: "A (i, j) = recurrence sc s1 s2 i j"
    using diag bd by (cases "(i, j) \<in> set pre") (auto simp: A cell_value_def)
  have Au: "A (i, Suc j) = recurrence sc s1 s2 i (Suc j)"
    using up bd by (cases "(i, Suc j) \<in> set pre") (auto simp: A cell_value_def)
  have Al: "A (Suc i, j) = recurrence sc s1 s2 (Suc i) j"
    using left bd by (cases "(Suc i, j) \<in> set pre") (auto simp: A cell_value_def)
  define v where "v = ?cv (Suc i, Suc j)"
  have v: "max4 (A (i, j) + d) (A (i, Suc j) + gap_penalty sc) (A (Suc i, j) + gap_penalty sc) 0 = v"
    by (simp add: v_def cell_value_def Ad Au Al sub_def sc)
  have v0: "0 \<le> v" unfolding v_def cell_value_def by (rule recurrence_nonneg)
  have filt_gt: "filter (\<lambda>c. ?cv c = v) pre = []" if "b < v"
  proof -
    have "\<forall>c \<in> set pre. ?cv c \<noteq> v" using that bub by fastforce
    then show ?thesis by (simp add: filter_empty_conv)
  qed
  have step: "fill_cell sc s1 s2 (Suc i) st (Suc j) =
      Inr (A((Suc i, Suc j) := v),
           if v > b then (v, [(Suc i, Suc j)])
           else (b, if v = b then L @ [(Suc i, Suc j)] else L))"
    using v by (simp add: fill_cell_def st sc Let_def)
  have "fill_inv A0 sc s1 s2 (pre @ [(Suc i, Suc j)])
      (A((Suc i, Suc j) := v),
           if v > b then (v, [(Suc i, Suc j)])
           else (b, if v = b then L @ [(Suc i, Suc j)] else L))"
  proof (cases "v > b")
    case True
    then show ?thesis
      using A b0 bub filt_gt new
      by (auto simp: fill_inv_def v_def[symmetric] dest: bub)
  next
    case False
    then show ?thesis
      using A b0 bub batt new L 
      by (auto simp: fill_inv_def v_def[symmetric])
  qed
  with step show ?thesis by simp
qed

lemma fill_row:
  assumes inv: "fill_inv A0 sc s1 s2 (grid i m) st"
    and bd: "\<And>i j. A0 (i, 0) = 0 \<and> A0 (0, j) = 0"
    and j: "j \<le> m"
    and ok: "\<And>j'. j' < j \<Longrightarrow> \<exists>d. score sc [s1 ! i] [s2 ! j'] = Inr d"
  shows "\<exists>st'. for_loop (fill_cell sc s1 s2 (Suc i)) [1..<Suc j] st = Inr st' \<and>
               fill_inv A0 sc s1 s2 (grid i m @ map (Pair (Suc i)) [1..<Suc j]) st'"
  using j ok
proof (induction j)
  case 0
  then show ?case using inv by simp
next
  case (Suc j)
  then obtain st1 where l1: "for_loop (fill_cell sc s1 s2 (Suc i)) [1..<Suc j] st = Inr st1"
    and i1: "fill_inv A0 sc s1 s2 (grid i m @ map (Pair (Suc i)) [1..<Suc j]) st1"
    by force
  let ?pre = "grid i m @ map (Pair (Suc i)) [1..<Suc j]"
  from Suc.prems obtain d where d: "score sc [s1 ! i] [s2 ! j] = Inr d" by blast
  have new: "(Suc i, Suc j) \<notin> set ?pre"
    by (auto simp: set_grid simp del: upt_Suc)
  have diag: "(i, j) \<in> set ?pre \<or> i = 0 \<or> j = 0"
    using Suc.prems(1) by (auto simp: set_grid simp del: upt_Suc)
  have up: "(i, Suc j) \<in> set ?pre \<or> i = 0"
    using Suc.prems(1) by (auto simp: set_grid simp del: upt_Suc)
  have left: "(Suc i, j) \<in> set ?pre \<or> j = 0"
    by (auto simp del: upt_Suc)
  from fill_cell_step[OF i1 bd new diag up left d]
  obtain st' where "fill_cell sc s1 s2 (Suc i) st1 (Suc j) = Inr st'"
    and "fill_inv A0 sc s1 s2 (?pre @ [(Suc i, Suc j)]) st'" by blast
  then show ?case
    using l1 by (simp add: for_loop_append)
qed

lemma fill_rows:
  assumes bd: "\<And>i j. A0 (i, 0) = 0 \<and> A0 (0, j) = 0"
    and ok: "\<And>i' j'. i' < i \<Longrightarrow> j' < m \<Longrightarrow> \<exists>d. score sc [s1 ! i'] [s2 ! j'] = Inr d"
  shows "\<exists>st'. for_loop (\<lambda>st i. for_loop (fill_cell sc s1 s2 i) [1..<Suc m] st) [1..<Suc i]
                  (A0, 0, []) = Inr st' \<and>
               fill_inv A0 sc s1 s2 (grid i m) st'"
  using ok
proof (induction i)
  case 0
  then show ?case by (simp add: fill_inv_def grid_def)
next
  case (Suc i)
  then obtain st1 where
    l1: "for_loop (\<lambda>st i. for_loop (fill_cell sc s1 s2 i) [1..<Suc m] st) [1..<Suc i]
           (A0, 0, []) = Inr st1"
    and i1: "fill_inv A0 sc s1 s2 (grid i m) st1"
    by force
  have "\<And>j'. j' < m \<Longrightarrow> \<exists>d. score sc [s1 ! i] [s2 ! j'] = Inr d"
    using Suc.prems by blast
  from fill_row[OF i1 bd le_refl this]
  obtain st' where "for_loop (fill_cell sc s1 s2 (Suc i)) [1..<Suc m] st1 = Inr st'"
    and "fill_inv A0 sc s1 s2 (grid (Suc i) m) st'"
    by (auto simp: grid_Suc)
  then show ?case
    using l1 by (simp add: for_loop_append)
qed

lemma scores_ok_nth:
  "scores_ok sc s1 s2 \<Longrightarrow> i < length s1 \<Longrightarrow> j < length s2 \<Longrightarrow>
   \<exists>d. score sc [s1 ! i] [s2 ! j] = Inr d"
  by (simp add: scores_ok_def)

lemma fill_correct:
  assumes "scores_ok sc s1 s2"
  shows "\<exists>st. fill sc s1 s2 = Inr st \<and> fill_inv (\<lambda>_. 0) sc s1 s2 (grid (length s1) (length s2)) st"
  using fill_rows[where ?A0.0 = "\<lambda>_. 0" and i = "length s1" and m = "length s2" and sc = sc
      and ?s1.0 = s1 and ?s2.0 = s2] scores_ok_nth[OF assms]
  by (simp add: fill_unfold)

text \<open>The fill as one loop over the cells in row-major order; where it raises.\<close>

lemma fill_flat:
  "fill sc s1 s2 =
     for_loop (\<lambda>st (i, j). fill_cell sc s1 s2 i st j) (grid (length s1) (length s2))
       (\<lambda>_. 0, 0, [])"
  using for_loop_concat[of "fill_cell sc s1 s2" "\<lambda>_. [1..<Suc (length s2)]"]
  by (simp add: fill_unfold grid_def del: upt_Suc)

lemma for_loop_raises:
  assumes "\<And>s. \<exists>e'. body s x = Inl e'" "x \<in> set xs"
  shows "\<exists>e. for_loop body xs s = Inl e"
  using assms(2)
proof (induction xs arbitrary: s)
  case Nil
  then show ?case by simp
next
  case (Cons y ys)
  show ?case
  proof (cases "body s y")
    case (Inl e)
    then show ?thesis by simp
  next
    case (Inr s')
    show ?thesis
    proof (cases "x = y")
      case True
      with assms(1)[of s] Inr show ?thesis by simp
    next
      case False
      with Cons have "\<exists>e. for_loop body ys s' = Inl e" by simp
      with Inr show ?thesis by simp
    qed
  qed
qed

lemma fill_cell_raises:
  "score sc [s1 ! (i - 1)] [s2 ! (j - 1)] = Inl e \<Longrightarrow> fill_cell sc s1 s2 i st j = Inl e"
  by (simp add: fill_cell_def split: prod.splits)

lemma fill_Inr_scores_ok:
  assumes "fill sc s1 s2 = Inr st"
  shows "scores_ok sc s1 s2"
proof (rule ccontr)
  assume "\<not> scores_ok sc s1 s2"
  then obtain a b where a: "a \<in> set s1" and b: "b \<in> set s2"
    and bad: "\<forall>v. score sc [a] [b] \<noteq> Inr v"
    by (auto simp: scores_ok_def)
  then obtain e where e: "score sc [a] [b] = Inl e" by (cases "score sc [a] [b]") auto
  from a b obtain i j where i: "i < length s1" "s1 ! i = a" and j: "j < length s2" "s2 ! j = b"
    by (auto simp: in_set_conv_nth)
  have mem: "(Suc i, Suc j) \<in> set (grid (length s1) (length s2))"
    using i j by (simp add: set_grid)
  have "\<exists>e. for_loop (\<lambda>st (i, j). fill_cell sc s1 s2 i st j)
          (grid (length s1) (length s2)) (\<lambda>_. 0, 0, []) = Inl e"
  proof (rule for_loop_raises[where x = "(Suc i, Suc j)"])
    show "\<exists>e'. (case (Suc i, Suc j) of (i, j) \<Rightarrow> fill_cell sc s1 s2 i s j) = Inl e'" for s
      using e i j by (simp add: fill_cell_raises)
  qed (rule mem)
  with assms show False
    by (simp add: fill_flat)
qed

lemma paths_unfold: "paths sc s1 s2 p = emit sc s1 s2 p @ concat (map (paths sc s1 s2) (succs sc s1 s2 p))"
  by (cases p) (simp add: paths.simps emit_def succs_def)

lemma succs_in_grid: "in_grid s1 s2 p \<Longrightarrow> q \<in> set (succs sc s1 s2 p) \<Longrightarrow> in_grid s1 s2 q"
  by (auto simp: in_grid_def succs_def split: if_splits)

lemma succs_rank: "q \<in> set (succs sc s1 s2 p) \<Longrightarrow> rank q < rank p"
  by (auto simp: rank_def succs_def split: if_splits)

lemma backtrace_step_eq:
  assumes A: "filled sc s1 s2 A" and ok: "scores_ok sc s1 s2" and p: "in_grid s1 s2 p"
  shows "backtrace_step sc s1 s2 A (als, nx) p =
         Inr (als @ emit sc s1 s2 p, nx @ succs sc s1 s2 p)"
proof -
  obtain a1 a2 i j where pe: "p = (a1, a2, i, j)" by (cases p)
  with p have ij: "i \<le> length s1" "j \<le> length s2" by (auto simp: in_grid_def)
  have Aij: "A (i, j) = recurrence sc s1 s2 i j" using A ij by (simp add: filled_def)
  show ?thesis
  proof (cases "i = 0 \<or> j = 0 \<or> recurrence sc s1 s2 i j = 0")
    case True
    then have "recurrence sc s1 s2 i j = 0" by auto
    then show ?thesis using True
      by (simp add: backtrace_step_def pe Aij emit_def succs_def)
  next
    case False
    then obtain i' j' where i': "i = Suc i'" and j': "j = Suc j'"
      by (cases i; cases j) auto
    from ij have lt: "i' < length s1" "j' < length s2" by (auto simp: i' j')
    from scores_ok_nth[OF ok lt] obtain d where d: "score sc [s1 ! i'] [s2 ! j'] = Inr d" by blast
    then have sub: "sub sc (s1 ! i') (s2 ! j') = d" by (simp add: sub_def)
    have Ad: "A (i', j') = recurrence sc s1 s2 i' j'"
      and Au: "A (i', Suc j') = recurrence sc s1 s2 i' (Suc j')"
      and Al: "A (Suc i', j') = recurrence sc s1 s2 (Suc i') j'"
      using A ij by (simp_all add: filled_def i' j')
    from False have nz: "recurrence sc s1 s2 (Suc i') (Suc j') \<noteq> 0" by (simp add: i' j')
    show ?thesis
      using nz Aij
      by (simp add: backtrace_step_def pe i' j' d sub Ad Au Al emit_def succs_def Let_def
          del: recurrence.simps)
  qed
qed

lemma backtrace_level:
  assumes A: "filled sc s1 s2 A" and ok: "scores_ok sc s1 s2"
  shows "\<forall>p \<in> set ps. in_grid s1 s2 p \<Longrightarrow>
         for_loop (backtrace_step sc s1 s2 A) ps (als, nx) =
         Inr (als @ concat (map (emit sc s1 s2) ps), nx @ concat (map (succs sc s1 s2) ps))"
proof (induction ps arbitrary: als nx)
  case Nil
  then show ?case by simp
next
  case (Cons p ps)
  then show ?case
    by (simp add: backtrace_step_eq[OF A ok])
qed

lemma backtrace_Nil: "backtrace sc s1 s2 A [] als = Some (Inr als)"
  by (subst backtrace.simps) simp

lemma backtrace_Cons:
  "ps \<noteq> [] \<Longrightarrow> backtrace sc s1 s2 A ps als =
     (case for_loop (backtrace_step sc s1 s2 A) ps (als, []) of
        Inl e \<Rightarrow> Some (Inl e)
      | Inr (als', nx) \<Rightarrow> backtrace sc s1 s2 A nx als')"
  by (subst backtrace.simps) simp

lemma backtrace_paths:
  assumes A: "filled sc s1 s2 A" and ok: "scores_ok sc s1 s2"
  shows "\<forall>p \<in> set ps. in_grid s1 s2 p \<and> rank p < k \<Longrightarrow>
         \<exists>res. backtrace sc s1 s2 A ps als = Some (Inr (als @ res)) \<and>
               mset res = mset (concat (map (paths sc s1 s2) ps))"
proof (induction k arbitrary: ps als)
  case 0
  then have "ps = []" by (cases ps) auto
  then show ?case by (simp add: backtrace_Nil)
next
  case (Suc k)
  show ?case
  proof (cases "ps = []")
    case True
    then show ?thesis by (simp add: backtrace_Nil)
  next
    case False
    let ?nx = "concat (map (succs sc s1 s2) ps)"
    let ?em = "concat (map (emit sc s1 s2) ps)"
    have lvl: "for_loop (backtrace_step sc s1 s2 A) ps (als, []) = Inr (als @ ?em, ?nx)"
      using backtrace_level[OF A ok, of ps als "[]"] Suc.prems by simp
    have "\<forall>q \<in> set ?nx. in_grid s1 s2 q \<and> rank q < k"
    proof
      fix q assume "q \<in> set ?nx"
      then obtain p where p: "p \<in> set ps" and q: "q \<in> set (succs sc s1 s2 p)" by auto
      from Suc.prems p have "in_grid s1 s2 p" "rank p < Suc k" by auto
      with succs_in_grid[OF _ q] succs_rank[OF q] show "in_grid s1 s2 q \<and> rank q < k" by simp
    qed
    from Suc.IH[OF this, of "als @ ?em"] obtain res where
      res: "backtrace sc s1 s2 A ?nx (als @ ?em) = Some (Inr ((als @ ?em) @ res))"
      and ms: "mset res = mset (concat (map (paths sc s1 s2) ?nx))" by blast
    have split: "mset (concat (map (paths sc s1 s2) qs)) =
        mset (concat (map (emit sc s1 s2) qs)) +
        mset (concat (map (paths sc s1 s2) (concat (map (succs sc s1 s2) qs))))" for qs
    proof (induction qs)
      case Nil
      then show ?case by simp
    next
      case (Cons q qs)
      have "mset (paths sc s1 s2 q) = mset (emit sc s1 s2 q) +
          mset (concat (map (paths sc s1 s2) (succs sc s1 s2 q)))"
        by (subst paths_unfold) simp
      with Cons.IH show ?case by simp
    qed
    have "backtrace sc s1 s2 A ps als = Some (Inr (als @ (?em @ res)))"
      using False res lvl by (simp add: backtrace_Cons)
    moreover have "mset (?em @ res) = mset (concat (map (paths sc s1 s2) ps))"
      using ms split[of ps] by simp
    ultimately show ?thesis by blast
  qed
qed

lemma fill_inv_filled:
  assumes "fill_inv (\<lambda>_. 0) sc s1 s2 (grid (length s1) (length s2)) (A, b, L)"
  shows "filled sc s1 s2 A"
  unfolding filled_def
proof (intro allI impI)
  fix i j assume ij: "i \<le> length s1 \<and> j \<le> length s2"
  from assms have A: "A (i, j) = (if (i, j) \<in> set (grid (length s1) (length s2))
      then cell_value sc s1 s2 (i, j) else 0)"
    by (simp add: fill_inv_def)
  show "A (i, j) = recurrence sc s1 s2 i j"
  proof (cases "i = 0 \<or> j = 0")
    case True
    then show ?thesis using A by (auto simp: set_grid)
  next
    case False
    then show ?thesis using A ij by (auto simp: set_grid cell_value_def)
  qed
qed

lemma smith_waterman_returns:
  assumes ok: "scores_ok sc s1 s2"
  shows "\<exists>A b L res. fill sc s1 s2 = Inr (A, b, L) \<and>
           fill_inv (\<lambda>_. 0) sc s1 s2 (grid (length s1) (length s2)) (A, b, L) \<and>
           smith_waterman s1 s2 sc = Some (Inr (b, res)) \<and>
           mset res = mset (concat (map (\<lambda>c. paths sc s1 s2 (start_partial c)) L))"
proof -
  from fill_correct[OF ok] obtain A b L where f: "fill sc s1 s2 = Inr (A, b, L)"
    and inv: "fill_inv (\<lambda>_. 0) sc s1 s2 (grid (length s1) (length s2)) (A, b, L)"
    by (metis prod_cases3)
  have A: "filled sc s1 s2 A" by (rule fill_inv_filled[OF inv])
  from inv have "set L \<subseteq> set (grid (length s1) (length s2))"
    by (auto simp: fill_inv_def)
  then have "\<forall>p \<in> set (map start_partial L).
      in_grid s1 s2 p \<and> rank p < Suc (length s1 + length s2)"
    by (fastforce simp: set_grid in_grid_def rank_def start_partial_def)
  from backtrace_paths[OF A ok this, of "[]"] obtain res where
    bt: "backtrace sc s1 s2 A (map start_partial L) [] = Some (Inr res)"
    and ms: "mset res = mset (concat (map (paths sc s1 s2) (map start_partial L)))"
    by auto
  have sp: "map (\<lambda>(i, j). ([], [], i, j)) L = map start_partial L"
    by (simp add: start_partial_def)
  have "smith_waterman s1 s2 sc = Some (Inr (b, res))"
    by (simp add: smith_waterman_unfold f bt sp)
  with f inv ms show ?thesis by (auto simp: comp_def)
qed

lemma smith_waterman_raises:
  assumes "fill sc s1 s2 = Inl e"
  shows "smith_waterman s1 s2 sc = Some (Inl e)"
  using assms by (simp add: smith_waterman_unfold)

lemma fill_Inl_or_ok: "(\<exists>e. fill sc s1 s2 = Inl e) \<or> scores_ok sc s1 s2"
  by (cases "fill sc s1 s2") (auto dest: fill_Inr_scores_ok)

text \<open>The call always returns: the backtrace loop ends on every filled matrix.\<close>

lemma smith_waterman_total: "\<exists>r. smith_waterman s1 s2 sc = Some r"
proof (cases "scores_ok sc s1 s2")
  case True
  from smith_waterman_returns[OF True] show ?thesis by blast
next
  case False
  with fill_Inl_or_ok[of sc s1 s2] obtain e where "fill sc s1 s2 = Inl e" by blast
  then show ?thesis by (simp add: smith_waterman_raises)
qed

subsection \<open>No positive cell\<close>

lemma length_grid: "length (grid n m) = n * m"
proof (induction n)
  case 0
  then show ?case by (simp add: grid_def)
next
  case (Suc n)
  then show ?case by (simp add: grid_Suc del: upt_Suc)
qed

lemma paths_zero:
  "i = 0 \<or> j = 0 \<or> recurrence sc s1 s2 i j = 0 \<Longrightarrow> paths sc s1 s2 (a1, a2, i, j) = [(a1, a2)]"
  by (subst paths.simps) simp

lemma mset_replicate_eq:
  "mset xs = mset (replicate n x) \<Longrightarrow> xs = replicate n x"
proof -
  assume a: "mset xs = mset (replicate n x)"
  then have "set xs = set (replicate n x)" by (rule mset_eq_setD)
  then have "\<And>y. y \<in> set xs \<Longrightarrow> y = x" by auto
  moreover from a have "length xs = n" by (metis length_replicate mset_eq_length)
  ultimately show ?thesis by (intro replicate_eqI) auto
qed

lemma all_zero_result:
  assumes ok: "scores_ok sc s1 s2"
    and zero: "\<forall>c \<in> set (grid (length s1) (length s2)). cell_value sc s1 s2 c = 0"
  shows "smith_waterman s1 s2 sc = Some (Inr (0, replicate (length s1 * length s2) ([], [])))"
proof -
  let ?g = "grid (length s1) (length s2)"
  from smith_waterman_returns[OF ok] obtain A b L res where
    inv: "fill_inv (\<lambda>_. 0) sc s1 s2 ?g (A, b, L)"
    and sw: "smith_waterman s1 s2 sc = Some (Inr (b, res))"
    and ms: "mset res = mset (concat (map (\<lambda>c. paths sc s1 s2 (start_partial c)) L))"
    by blast
  from inv zero have b: "b = 0" by (auto simp: fill_inv_def)
  from inv zero b have L: "L = ?g" by (auto simp: fill_inv_def filter_id_conv)
  have "\<forall>c \<in> set ?g. paths sc s1 s2 (start_partial c) = [([], [])]"
    using zero by (auto simp: start_partial_def cell_value_def paths_zero)
  then have "map (\<lambda>c. paths sc s1 s2 (start_partial c)) ?g = replicate (length ?g) [([], [])]"
    by (simp add: map_replicate_const[symmetric] cong: map_cong)
  then have "concat (map (\<lambda>c. paths sc s1 s2 (start_partial c)) ?g) =
      replicate (length ?g) ([], [])"
    by (simp add: concat_replicate_single)
  with ms L have "res = replicate (length s1 * length s2) ([], [])"
    by (simp add: mset_replicate_eq length_grid)
  with sw b show ?thesis by simp
qed

lemma recurrence_zero:
  "gap_penalty sc \<le> 0 \<Longrightarrow>
   \<forall>a \<in> set s1. \<forall>b \<in> set s2. \<exists>v. score sc [a] [b] = Inr v \<and> v \<le> 0 \<Longrightarrow>
   i \<le> length s1 \<Longrightarrow> j \<le> length s2 \<Longrightarrow> recurrence sc s1 s2 i j = 0"
proof (induction sc s1 s2 i j rule: recurrence.induct)
  case (3 sc s1 s2 i j)
  then have ij: "i < length s1" "j < length s2" by simp_all
  then have "s1 ! i \<in> set s1" "s2 ! j \<in> set s2" by simp_all
  with "3.prems"(2) obtain v where "score sc [s1 ! i] [s2 ! j] = Inr v" "v \<le> 0" by blast
  then have "sub sc (s1 ! i) (s2 ! j) \<le> 0" by (simp add: sub_def)
  moreover have "recurrence sc s1 s2 i j = 0" "recurrence sc s1 s2 i (Suc j) = 0"
    "recurrence sc s1 s2 (Suc i) j = 0"
    using 3 by simp_all
  ultimately show ?case using "3.prems"(1) by (simp add: max4_def)
qed simp_all

text \<open>
  Claim C1 (as amended). Whenever no cell of the DP matrix is positive (in particular when the
  gap penalty and every pairwise symbol score are \<open>\<le> 0\<close>), \<open>smith_waterman\<close> returns
  \<open>best_score = 0\<close> together with one empty alignment \<open>("", "")\<close> for every cell of the matrix:
  each cell holds 0, ties the initial \<open>best_score\<close>, is appended to \<open>best_locations\<close>, and the
  backtrace emits its empty partial at once. The list of alignments is empty only when one of
  the sequences is.
\<close>

theorem no_positive_cell:
  assumes "(\<exists>A b L. fill sc s1 s2 = Inr (A, b, L) \<and> (\<forall>i j. A (i, j) \<le> 0)) \<or>
           (gap_penalty sc \<le> 0 \<and>
            (\<forall>a \<in> set s1. \<forall>b \<in> set s2. \<exists>v. score sc [a] [b] = Inr v \<and> v \<le> 0))"
  shows "smith_waterman s1 s2 sc = Some (Inr (0, replicate (length s1 * length s2) ([], [])))"
  using assms
proof (elim disjE exE conjE)
  fix A b L
  assume f: "fill sc s1 s2 = Inr (A, b, L)" and np: "\<forall>i j. A (i, j) \<le> 0"
  from f have ok: "scores_ok sc s1 s2" by (rule fill_Inr_scores_ok)
  from fill_correct[OF ok] f
  have inv: "fill_inv (\<lambda>_. 0) sc s1 s2 (grid (length s1) (length s2)) (A, b, L)" by simp
  have "\<forall>c \<in> set (grid (length s1) (length s2)). cell_value sc s1 s2 c = 0"
  proof
    fix c assume c: "c \<in> set (grid (length s1) (length s2))"
    with inv have "A c = cell_value sc s1 s2 c" by (cases c) (auto simp: fill_inv_def)
    moreover have "A c \<le> 0" using np by (cases c) simp
    moreover have "0 \<le> cell_value sc s1 s2 c" by (simp add: cell_value_def recurrence_nonneg)
    ultimately show "cell_value sc s1 s2 c = 0" by simp
  qed
  with ok show ?thesis by (rule all_zero_result)
next
  assume g: "gap_penalty sc \<le> 0"
    and np: "\<forall>a \<in> set s1. \<forall>b \<in> set s2. \<exists>v. score sc [a] [b] = Inr v \<and> v \<le> 0"
  from np have ok: "scores_ok sc s1 s2" by (fastforce simp: scores_ok_def)
  have "\<forall>c \<in> set (grid (length s1) (length s2)). cell_value sc s1 s2 c = 0"
    using recurrence_zero[OF g np] by (auto simp: set_grid cell_value_def)
  with ok show ?thesis by (rule all_zero_result)
qed

text \<open>The facts that evaluate \<open>smith_waterman\<close> on concrete sequences.\<close>

lemmas sw_eval = smith_waterman_unfold fill_unfold fill_cell_def score_def score_step_def
  default_scheme_def ScoringScheme_def max4_def gap_def backtrace.simps backtrace_step_def
  enumerate_eq_zip upt_conv_Cons

theorem no_positive_cell_witness:
  "smith_waterman ''AC'' ''GT'' default_scheme =
     Some (Inr (0, [([], []), ([], []), ([], []), ([], [])]))"
proof -
  have "gap_penalty default_scheme \<le> 0 \<and>
      (\<forall>a \<in> set ''AC''. \<forall>b \<in> set ''GT''. \<exists>v. score default_scheme [a] [b] = Inr v \<and> v \<le> 0)"
    by (simp add: score_single default_scheme_def ScoringScheme_def gap_def)
  then show ?thesis
    using no_positive_cell[of default_scheme "''AC''" "''GT''"]
    by (simp add: numeral_eq_Suc)
qed

text \<open>
  The claim as stated fails: for \<open>sequence1 = "A"\<close>, \<open>sequence2 = "T"\<close> under the default
  scheme the result holds the empty alignment once, it is not empty.
\<close>

theorem mismatch_alignment_not_empty:
  "smith_waterman ''A'' ''T'' default_scheme = Some (Inr (0, [([], [])])) \<and>
   smith_waterman ''A'' ''T'' default_scheme \<noteq> Some (Inr (0, []))"
  by (simp add: sw_eval)

subsection \<open>A sequence aligned with itself\<close>

lemma scores_ok_no_matrix:
  assumes "scoring_matrix sc = None" "gap \<notin> set s1 \<or> gap \<notin> set s2"
  shows "scores_ok sc s1 s2"
  using assms by (auto simp: scores_ok_def score_single)

lemma best_score_bounds:
  assumes "fill_inv (\<lambda>_. 0) sc s1 s2 (grid (length s1) (length s2)) (A, b, L)"
    and "1 \<le> i" "i \<le> length s1" "1 \<le> j" "j \<le> length s2"
  shows "recurrence sc s1 s2 i j \<le> b"
proof -
  have "(i, j) \<in> set (grid (length s1) (length s2))"
    using assms(2-) by (simp add: set_grid)
  with assms(1) show ?thesis by (fastforce simp: fill_inv_def cell_value_def)
qed

lemma recurrence_diagonal:
  assumes "gap \<notin> set s"
  shows "i \<le> length s \<Longrightarrow> real i * match_score default_scheme \<le> recurrence default_scheme s s i i"
proof (induction i)
  case 0
  then show ?case by simp
next
  case (Suc i)
  then have "s ! i \<in> set s" by simp
  with assms have "s ! i \<noteq> gap" by auto
  then have "sub default_scheme (s ! i) (s ! i) = 1"
    by (simp add: sub_def score_single default_scheme_def ScoringScheme_def)
  moreover have "real i * match_score default_scheme \<le> recurrence default_scheme s s i i"
    using Suc by simp
  ultimately show ?case
    by (simp add: max4_def default_scheme_def ScoringScheme_def algebra_simps)
qed

text \<open>
  Claim C7 (as amended). For every non-empty sequence \<open>s\<close> that does not contain the gap
  symbol, aligning \<open>s\<close> with itself under the default scoring scheme returns a
  \<open>best_score\<close> of at least \<open>len(s) * match_score\<close>: the diagonal cell \<open>(i, i)\<close> holds at
  least \<open>i\<close>.
\<close>

theorem self_alignment_score:
  assumes "s \<noteq> []" and "gap \<notin> set s"
  shows "\<exists>best alignments. smith_waterman s s default_scheme = Some (Inr (best, alignments)) \<and>
           real (length s) * match_score default_scheme \<le> best"
proof -
  have ok: "scores_ok default_scheme s s"
    using assms(2) by (intro scores_ok_no_matrix) (simp_all add: default_scheme_def ScoringScheme_def)
  from smith_waterman_returns[OF ok] obtain A b L res where
    inv: "fill_inv (\<lambda>_. 0) default_scheme s s (grid (length s) (length s)) (A, b, L)"
    and sw: "smith_waterman s s default_scheme = Some (Inr (b, res))"
    by blast
  from assms(1) have "1 \<le> length s" by (cases s) simp_all
  from best_score_bounds[OF inv this le_refl this le_refl]
  have "recurrence default_scheme s s (length s) (length s) \<le> b" .
  with recurrence_diagonal[OF assms(2) le_refl] sw show ?thesis by simp
qed

theorem self_alignment_score_witness:
  "\<exists>best alignments. smith_waterman ''ACA'' ''ACA'' default_scheme = Some (Inr (best, alignments)) \<and>
           real (length ''ACA'') * match_score default_scheme \<le> best"
  using self_alignment_score[of "''ACA''"] by (simp add: gap_def)

text \<open>
  The claim as stated fails for a sequence that contains the gap symbol: the fill compares
  the symbol with itself and \<open>score\<close> raises \<open>ValueError\<close>, so no score is returned.
\<close>

theorem self_alignment_with_gap_raises:
  "smith_waterman ''A-'' ''A-'' default_scheme = Some (Inl ValueError)"
  by (simp add: sw_eval)

subsection \<open>Monotonicity in the gap penalty\<close>

lemma for_loop_same_error:
  assumes "\<And>s s' x e. x \<in> set xs \<Longrightarrow> (body s x = Inl e) = (body' s' x = Inl e)"
  shows "(for_loop body xs s = Inl e) = (for_loop body' xs s' = Inl e)"
  using assms
proof (induction xs arbitrary: s s')
  case Nil
  then show ?case by simp
next
  case (Cons x xs)
  have same: "(body s x = Inl e') = (body' s' x = Inl e')" for e'
    using Cons.prems by simp
  show ?case
  proof (cases "body s x")
    case (Inl e1)
    with same[of e1] show ?thesis by auto
  next
    case (Inr t)
    show ?thesis
    proof (cases "body' s' x")
      case (Inl e2)
      with same[of e2] Inr show ?thesis by simp
    next
      case Inr': (Inr t')
      have "(for_loop body xs t = Inl e) = (for_loop body' xs t' = Inl e)"
        using Cons.prems by (intro Cons.IH) simp
      with Inr Inr' show ?thesis by simp
    qed
  qed
qed

lemma fill_cell_Inl_iff:
  "(fill_cell sc s1 s2 i st j = Inl e) = (score sc [s1 ! (i - 1)] [s2 ! (j - 1)] = Inl e)"
  by (auto simp: fill_cell_def Let_def split: prod.splits sum.splits)

lemma score_gap_penalty_error:
  "(score (sc\<lparr>gap_penalty := g\<rparr>) [a] [b] = Inl e) = (score sc [a] [b] = Inl e)"
  by (auto simp: score_single Let_def split: option.splits if_splits)

lemma fill_gap_penalty_error:
  "(fill (sc\<lparr>gap_penalty := g1\<rparr>) s1 s2 = Inl e) = (fill (sc\<lparr>gap_penalty := g2\<rparr>) s1 s2 = Inl e)"
  unfolding fill_flat
  by (rule for_loop_same_error)
     (auto simp: fill_cell_Inl_iff score_gap_penalty_error)

lemma sub_gap_penalty_mono:
  "g1 \<le> g2 \<Longrightarrow> sub (sc\<lparr>gap_penalty := g1\<rparr>) a b \<le> sub (sc\<lparr>gap_penalty := g2\<rparr>) a b"
  by (auto simp: sub_def score_single Let_def split: option.splits)

lemma recurrence_gap_penalty_mono:
  assumes "g1 \<le> g2"
  shows "recurrence (sc\<lparr>gap_penalty := g1\<rparr>) s1 s2 i j \<le> recurrence (sc\<lparr>gap_penalty := g2\<rparr>) s1 s2 i j"
proof (induction i arbitrary: j)
  case 0
  then show ?case by simp
next
  case (Suc i)
  show ?case
  proof (induction j)
    case 0
    then show ?case by simp
  next
    case (Suc j)
    have "max4 a b c 0 \<le> max4 a' b' c' 0" if "a \<le> a'" "b \<le> b'" "c \<le> c'" for a b c a' b' c' :: real
      using that by (auto simp: max4_def max_def)
    then show ?case
      using Suc.IH \<open>\<And>j. recurrence (sc\<lparr>gap_penalty := g1\<rparr>) s1 s2 i j
        \<le> recurrence (sc\<lparr>gap_penalty := g2\<rparr>) s1 s2 i j\<close>[of j]
        \<open>\<And>j. recurrence (sc\<lparr>gap_penalty := g1\<rparr>) s1 s2 i j
        \<le> recurrence (sc\<lparr>gap_penalty := g2\<rparr>) s1 s2 i j\<close>[of "Suc j"]
        sub_gap_penalty_mono[OF assms, where sc = sc and a = "s1 ! i" and b = "s2 ! j"] assms
      by (simp add: add_mono)
  qed
qed

text \<open>
  Claim C6. For fixed sequences and fixed match, mismatch and matrix parameters, and gap
  penalties \<open>g1 \<le> g2\<close>: the two calls of \<open>smith_waterman\<close> either both return, and then the
  \<open>best_score\<close> with \<open>g2\<close> is at least the \<open>best_score\<close> with \<open>g1\<close>, or both raise the same
  exception (scoring raises for the same symbol pairs whatever the gap penalty is).
\<close>

theorem gap_penalty_monotone:
  assumes "g1 \<le> g2"
  shows "case (smith_waterman s1 s2 (sc\<lparr>gap_penalty := g1\<rparr>),
               smith_waterman s1 s2 (sc\<lparr>gap_penalty := g2\<rparr>)) of
           (Some (Inr (best1, alignments1)), Some (Inr (best2, alignments2))) \<Rightarrow> best1 \<le> best2
         | (Some (Inl e1), Some (Inl e2)) \<Rightarrow> e1 = e2
         | _ \<Rightarrow> False"
proof (cases "fill (sc\<lparr>gap_penalty := g1\<rparr>) s1 s2")
  case (Inl e)
  moreover from Inl have "fill (sc\<lparr>gap_penalty := g2\<rparr>) s1 s2 = Inl e"
    using fill_gap_penalty_error[where sc = sc and ?g1.0 = g1 and ?g2.0 = g2 and e = e] by simp
  ultimately show ?thesis by (simp add: smith_waterman_raises)
next
  case (Inr st)
  let ?sc1 = "sc\<lparr>gap_penalty := g1\<rparr>" and ?sc2 = "sc\<lparr>gap_penalty := g2\<rparr>"
  let ?g = "grid (length s1) (length s2)"
  from Inr have ok1: "scores_ok ?sc1 s1 s2" by (rule fill_Inr_scores_ok)
  have "\<not> (\<exists>e. fill ?sc2 s1 s2 = Inl e)"
  proof
    assume "\<exists>e. fill ?sc2 s1 s2 = Inl e"
    then obtain e where "fill ?sc2 s1 s2 = Inl e" ..
    then have "fill ?sc1 s1 s2 = Inl e"
      by (simp add: fill_gap_penalty_error[where sc = sc and ?g1.0 = g1 and ?g2.0 = g2])
    with Inr show False by simp
  qed
  then have ok2: "scores_ok ?sc2 s1 s2" using fill_Inl_or_ok by blast
  from smith_waterman_returns[OF ok1] obtain A1 b1 L1 res1 where
    inv1: "fill_inv (\<lambda>_. 0) ?sc1 s1 s2 ?g (A1, b1, L1)"
    and sw1: "smith_waterman s1 s2 ?sc1 = Some (Inr (b1, res1))" by blast
  from smith_waterman_returns[OF ok2] obtain A2 b2 L2 res2 where
    inv2: "fill_inv (\<lambda>_. 0) ?sc2 s1 s2 ?g (A2, b2, L2)"
    and sw2: "smith_waterman s1 s2 ?sc2 = Some (Inr (b2, res2))" by blast
  from inv1 have "b1 = 0 \<or> (\<exists>c \<in> set ?g. b1 = cell_value ?sc1 s1 s2 c)"
    by (auto simp: fill_inv_def)
  then have "b1 \<le> b2"
  proof
    assume "b1 = 0"
    with inv2 show ?thesis by (simp add: fill_inv_def)
  next
    assume "\<exists>c \<in> set ?g. b1 = cell_value ?sc1 s1 s2 c"
    then obtain c where c: "c \<in> set ?g" and b1: "b1 = cell_value ?sc1 s1 s2 c" by blast
    have "cell_value ?sc1 s1 s2 c \<le> cell_value ?sc2 s1 s2 c"
      by (simp add: cell_value_def recurrence_gap_penalty_mono[OF assms])
    also from inv2 c have "\<dots> \<le> b2" by (simp add: fill_inv_def)
    finally show ?thesis by (simp add: b1)
  qed
  with sw1 sw2 show ?thesis by simp
qed

theorem gap_penalty_monotone_witness:
  "(case (smith_waterman ''ACGT'' ''AGT'' (default_scheme\<lparr>gap_penalty := - 2\<rparr>),
               smith_waterman ''ACGT'' ''AGT'' (default_scheme\<lparr>gap_penalty := - 1 / 2\<rparr>)) of
           (Some (Inr (best1, alignments1)), Some (Inr (best2, alignments2))) \<Rightarrow> best1 \<le> best2
         | (Some (Inl e1), Some (Inl e2)) \<Rightarrow> e1 = e2
         | _ \<Rightarrow> False)"
  using gap_penalty_monotone[where ?g1.0 = "- 2" and ?g2.0 = "- 1 / 2" and ?s1.0 = "''ACGT''"
      and ?s2.0 = "''AGT''" and sc = default_scheme] by simp

subsection \<open>The uninitialised cells of the array\<close>

lemma fill_uninit_correct:
  assumes "scores_ok sc s1 s2"
  shows "\<exists>st. fill_uninit uninit sc s1 s2 = Inr st \<and>
              fill_inv (initial_matrix uninit) sc s1 s2 (grid (length s1) (length s2)) st"
  using fill_rows[where ?A0.0 = "initial_matrix uninit" and i = "length s1" and m = "length s2"
      and sc = sc and ?s1.0 = s1 and ?s2.0 = s2] scores_ok_nth[OF assms]
  by (simp add: fill_uninit_def initial_matrix_boundary)

lemma fill_uninit_flat:
  "fill_uninit uninit sc s1 s2 =
     for_loop (\<lambda>st (i, j). fill_cell sc s1 s2 i st j) (grid (length s1) (length s2))
       (initial_matrix uninit, 0, [])"
  using for_loop_concat[of "fill_cell sc s1 s2" "\<lambda>_. [1..<Suc (length s2)]"]
  by (simp add: fill_uninit_def grid_def del: upt_Suc)

lemma fill_uninit_raises:
  "(fill_uninit uninit sc s1 s2 = Inl e) = (fill sc s1 s2 = Inl e)"
  unfolding fill_uninit_flat fill_flat
  by (rule for_loop_same_error) (auto simp: fill_cell_Inl_iff)

lemma fill_inv_unique:
  assumes "fill_inv A0 sc s1 s2 pre (A, b, L)" "fill_inv A0' sc s1 s2 pre (A', b', L')"
  shows "b = b' \<and> L = L'"
proof -
  let ?cv = "cell_value sc s1 s2"
  from assms(1) have b: "0 \<le> b" "b = 0 \<or> b \<in> ?cv ` set pre" "\<forall>c \<in> set pre. ?cv c \<le> b"
    and L: "L = filter (\<lambda>c. ?cv c = b) pre"
    by (auto simp: fill_inv_def)
  from assms(2) have b': "0 \<le> b'" "b' = 0 \<or> b' \<in> ?cv ` set pre" "\<forall>c \<in> set pre. ?cv c \<le> b'"
    and L': "L' = filter (\<lambda>c. ?cv c = b') pre"
    by (auto simp: fill_inv_def)
  from b(2) b'(1,3) have "b \<le> b'" by auto
  moreover from b'(2) b(1,3) have "b' \<le> b" by auto
  ultimately have "b = b'" by simp
  with L L' show ?thesis by simp
qed

lemma fill_inv_initial_filled:
  assumes "fill_inv (initial_matrix uninit) sc s1 s2 (grid (length s1) (length s2)) (A, b, L)"
  shows "filled sc s1 s2 A"
  unfolding filled_def
proof (intro allI impI)
  fix i j assume ij: "i \<le> length s1 \<and> j \<le> length s2"
  from assms have A: "A (i, j) = (if (i, j) \<in> set (grid (length s1) (length s2))
      then cell_value sc s1 s2 (i, j) else initial_matrix uninit (i, j))"
    by (simp add: fill_inv_def)
  show "A (i, j) = recurrence sc s1 s2 i j"
  proof (cases "i = 0 \<or> j = 0")
    case True
    then show ?thesis using A by (auto simp: set_grid initial_matrix_def)
  next
    case False
    then show ?thesis using A ij by (auto simp: set_grid cell_value_def)
  qed
qed

lemma backtrace_filled_eq:
  assumes A: "filled sc s1 s2 A" and A': "filled sc s1 s2 A'" and ok: "scores_ok sc s1 s2"
  shows "\<forall>p \<in> set ps. in_grid s1 s2 p \<and> rank p < k \<Longrightarrow>
         backtrace sc s1 s2 A ps als = backtrace sc s1 s2 A' ps als"
proof (induction k arbitrary: ps als)
  case 0
  then have "ps = []" by (cases ps) auto
  then show ?case by (simp add: backtrace_Nil)
next
  case (Suc k)
  show ?case
  proof (cases "ps = []")
    case True
    then show ?thesis by (simp add: backtrace_Nil)
  next
    case False
    let ?nx = "concat (map (succs sc s1 s2) ps)"
    let ?em = "concat (map (emit sc s1 s2) ps)"
    from Suc.prems have ing: "\<forall>p \<in> set ps. in_grid s1 s2 p" by simp
    have lvl: "for_loop (backtrace_step sc s1 s2 A) ps (als, []) = Inr (als @ ?em, ?nx)"
      using backtrace_level[OF A ok ing, of als "[]"] by simp
    have lvl': "for_loop (backtrace_step sc s1 s2 A') ps (als, []) = Inr (als @ ?em, ?nx)"
      using backtrace_level[OF A' ok ing, of als "[]"] by simp
    have "\<forall>q \<in> set ?nx. in_grid s1 s2 q \<and> rank q < k"
    proof
      fix q assume "q \<in> set ?nx"
      then obtain p where p: "p \<in> set ps" and q: "q \<in> set (succs sc s1 s2 p)" by auto
      from Suc.prems p have "in_grid s1 s2 p" "rank p < Suc k" by auto
      with succs_in_grid[OF _ q] succs_rank[OF q] show "in_grid s1 s2 q \<and> rank q < k" by simp
    qed
    from Suc.IH[OF this, of "als @ ?em"] False lvl lvl' show ?thesis
      by (simp add: backtrace_Cons)
  qed
qed

text \<open>
  Whatever \<^verbatim>\<open>np.empty\<close> leaves in the array, the call returns the same: the model with the
  uninitialised cells at 0, which the theorems of this theory are about, loses nothing.
\<close>

theorem smith_waterman_uninit_eq:
  "smith_waterman_uninit uninit s1 s2 sc = smith_waterman s1 s2 sc"
proof (cases "scores_ok sc s1 s2")
  case True
  let ?g = "grid (length s1) (length s2)"
  from fill_uninit_correct[OF True, of uninit] obtain A b L where
    f: "fill_uninit uninit sc s1 s2 = Inr (A, b, L)"
    and inv: "fill_inv (initial_matrix uninit) sc s1 s2 ?g (A, b, L)"
    by (metis prod_cases3)
  from fill_correct[OF True] obtain A' b' L' where
    f': "fill sc s1 s2 = Inr (A', b', L')"
    and inv': "fill_inv (\<lambda>_. 0) sc s1 s2 ?g (A', b', L')"
    by (metis prod_cases3)
  from fill_inv_unique[OF inv inv'] have eq: "b = b'" "L = L'" by simp_all
  have fA: "filled sc s1 s2 A" by (rule fill_inv_initial_filled[OF inv])
  have fA': "filled sc s1 s2 A'" by (rule fill_inv_filled[OF inv'])
  from inv have "set L \<subseteq> set ?g" by (auto simp: fill_inv_def)
  then have "\<forall>p \<in> set (map start_partial L).
      in_grid s1 s2 p \<and> rank p < Suc (length s1 + length s2)"
    by (fastforce simp: set_grid in_grid_def rank_def start_partial_def)
  from backtrace_filled_eq[OF fA fA' True this]
  have "backtrace sc s1 s2 A (map start_partial L) [] =
      backtrace sc s1 s2 A' (map start_partial L) []" .
  then show ?thesis
    by (simp add: smith_waterman_unfold smith_waterman_uninit_def f f' eq start_partial_def)
next
  case False
  with fill_Inl_or_ok[of sc s1 s2] obtain e where e: "fill sc s1 s2 = Inl e" by blast
  then have "fill_uninit uninit sc s1 s2 = Inl e" by (simp add: fill_uninit_raises)
  with e show ?thesis by (simp add: smith_waterman_unfold smith_waterman_uninit_def)
qed

subsection \<open>What the backtrace returns\<close>

lemma paths_cases:
  assumes "r \<in> set (paths sc s1 s2 (a1, a2, i, j))"
  obtains
    (stop) "r = (a1, a2)"
  | (diag) "0 < i" "0 < j"
      "r \<in> set (paths sc s1 s2 (s1 ! (i - 1) # a1, s2 ! (j - 1) # a2, i - 1, j - 1))"
  | (up) "0 < i" "0 < j" "r \<in> set (paths sc s1 s2 (s1 ! (i - 1) # a1, gap # a2, i - 1, j))"
  | (left) "0 < i" "0 < j" "r \<in> set (paths sc s1 s2 (gap # a1, s2 ! (j - 1) # a2, i, j - 1))"
  using assms by (subst (asm) paths.simps) (auto split: if_splits)

lemma paths_suffix:
  "r \<in> set (paths sc s1 s2 p) \<Longrightarrow> suffix (fst p) (fst r) \<and> suffix (fst (snd p)) (snd r)"
proof (induction "rank p" arbitrary: p rule: less_induct)
  case less
  obtain a1 a2 i j where p: "p = (a1, a2, i, j)" by (cases p)
  from less.prems[unfolded p] show ?case
  proof (cases rule: paths_cases)
    case stop
    then show ?thesis by (simp add: p)
  next
    case diag
    with less.hyps[of "(s1 ! (i - 1) # a1, s2 ! (j - 1) # a2, i - 1, j - 1)"]
    show ?thesis by (auto simp: p rank_def dest: suffix_ConsD)
  next
    case up
    with less.hyps[of "(s1 ! (i - 1) # a1, gap # a2, i - 1, j)"]
    show ?thesis by (auto simp: p rank_def dest: suffix_ConsD)
  next
    case left
    with less.hyps[of "(gap # a1, s2 ! (j - 1) # a2, i, j - 1)"]
    show ?thesis by (auto simp: p rank_def dest: suffix_ConsD)
  qed
qed

lemma suffix_Cons_same:
  assumes "suffix (c # a) r" "suffix (d # a) r"
  shows "c = d"
proof -
  from assms obtain p q where "r = p @ c # a" "r = q @ d # a" by (auto simp: suffix_def)
  then have "(p @ [c]) @ a = (q @ [d]) @ a" by simp
  then have "p @ [c] = q @ [d]" by (simp only: append_same_eq)
  then show ?thesis by simp
qed

lemma remove_gaps_Cons:
  "remove_gaps (c # a) = (if c = gap then remove_gaps a else c # remove_gaps a)"
  by (simp add: remove_gaps_def)

lemma paths_remove_gaps1:
  assumes nog: "gap \<notin> set s1"
  shows "r \<in> set (paths sc s1 s2 p) \<Longrightarrow> in_grid s1 s2 p \<Longrightarrow>
         \<exists>k \<le> fst (snd (snd p)).
           remove_gaps (fst r) = drop k (take (fst (snd (snd p))) s1) @ remove_gaps (fst p)"
proof (induction "rank p" arbitrary: p rule: less_induct)
  case less
  obtain a1 a2 i j where p: "p = (a1, a2, i, j)" by (cases p)
  from less.prems(2) have ij: "i \<le> length s1" "j \<le> length s2" by (simp_all add: p in_grid_def)
  then have ij': "i - Suc 0 \<le> length s1" "j - Suc 0 \<le> length s2" by simp_all
  have step: "\<exists>k \<le> i. remove_gaps (fst r) = drop k (take i s1) @ remove_gaps a1"
    if i: "0 < i"
      and k: "\<exists>k \<le> i - 1. remove_gaps (fst r) =
                drop k (take (i - 1) s1) @ remove_gaps (s1 ! (i - 1) # a1)"
  proof -
    from k obtain k where k: "k \<le> i - 1"
      and eq: "remove_gaps (fst r) = drop k (take (i - 1) s1) @ remove_gaps (s1 ! (i - 1) # a1)"
      by blast
    from i ij have lt: "i - 1 < length s1" by simp
    then have "s1 ! (i - 1) \<in> set s1" by simp
    with nog have ng: "s1 ! (i - 1) \<noteq> gap" by auto
    from i lt have tk: "take i s1 = take (i - 1) s1 @ [s1 ! (i - 1)]"
      using take_Suc_conv_app_nth[of "i - 1" s1] by simp
    have "drop k (take i s1) = drop k (take (i - 1) s1) @ [s1 ! (i - 1)]"
      using k lt by (simp add: tk)
    with eq ng have "remove_gaps (fst r) = drop k (take i s1) @ remove_gaps a1"
      by (simp add: remove_gaps_Cons)
    with k show ?thesis by (intro exI[of _ k]) simp
  qed
  from less.prems(1)[unfolded p] show ?case
  proof (cases rule: paths_cases)
    case stop
    then show ?thesis by (intro exI[of _ i]) (simp add: p)
  next
    case diag
    with less.hyps[of "(s1 ! (i - 1) # a1, s2 ! (j - 1) # a2, i - 1, j - 1)"] ij ij'
    have "\<exists>k \<le> i - 1. remove_gaps (fst r) =
                drop k (take (i - 1) s1) @ remove_gaps (s1 ! (i - 1) # a1)"
      by (simp add: p rank_def in_grid_def)
    from step[OF diag(1) this] show ?thesis by (simp add: p)
  next
    case up
    with less.hyps[of "(s1 ! (i - 1) # a1, gap # a2, i - 1, j)"] ij ij'
    have "\<exists>k \<le> i - 1. remove_gaps (fst r) =
                drop k (take (i - 1) s1) @ remove_gaps (s1 ! (i - 1) # a1)"
      by (simp add: p rank_def in_grid_def)
    from step[OF up(1) this] show ?thesis by (simp add: p)
  next
    case left
    with less.hyps[of "(gap # a1, s2 ! (j - 1) # a2, i, j - 1)"] ij ij'
    show ?thesis by (simp add: p rank_def in_grid_def remove_gaps_Cons)
  qed
qed

lemma paths_remove_gaps2:
  assumes nog: "gap \<notin> set s2"
  shows "r \<in> set (paths sc s1 s2 p) \<Longrightarrow> in_grid s1 s2 p \<Longrightarrow>
         \<exists>k \<le> snd (snd (snd p)).
           remove_gaps (snd r) = drop k (take (snd (snd (snd p))) s2) @ remove_gaps (fst (snd p))"
proof (induction "rank p" arbitrary: p rule: less_induct)
  case less
  obtain a1 a2 i j where p: "p = (a1, a2, i, j)" by (cases p)
  from less.prems(2) have ij: "i \<le> length s1" "j \<le> length s2" by (simp_all add: p in_grid_def)
  then have ij': "i - Suc 0 \<le> length s1" "j - Suc 0 \<le> length s2" by simp_all
  have step: "\<exists>k \<le> j. remove_gaps (snd r) = drop k (take j s2) @ remove_gaps a2"
    if j: "0 < j"
      and k: "\<exists>k \<le> j - 1. remove_gaps (snd r) =
                drop k (take (j - 1) s2) @ remove_gaps (s2 ! (j - 1) # a2)"
  proof -
    from k obtain k where k: "k \<le> j - 1"
      and eq: "remove_gaps (snd r) = drop k (take (j - 1) s2) @ remove_gaps (s2 ! (j - 1) # a2)"
      by blast
    from j ij have lt: "j - 1 < length s2" by simp
    then have "s2 ! (j - 1) \<in> set s2" by simp
    with nog have ng: "s2 ! (j - 1) \<noteq> gap" by auto
    from j lt have tk: "take j s2 = take (j - 1) s2 @ [s2 ! (j - 1)]"
      using take_Suc_conv_app_nth[of "j - 1" s2] by simp
    have "drop k (take j s2) = drop k (take (j - 1) s2) @ [s2 ! (j - 1)]"
      using k lt by (simp add: tk)
    with eq ng have "remove_gaps (snd r) = drop k (take j s2) @ remove_gaps a2"
      by (simp add: remove_gaps_Cons)
    with k show ?thesis by (intro exI[of _ k]) simp
  qed
  from less.prems(1)[unfolded p] show ?case
  proof (cases rule: paths_cases)
    case stop
    then show ?thesis by (intro exI[of _ j]) (simp add: p)
  next
    case diag
    with less.hyps[of "(s1 ! (i - 1) # a1, s2 ! (j - 1) # a2, i - 1, j - 1)"] ij ij'
    have "\<exists>k \<le> j - 1. remove_gaps (snd r) =
                drop k (take (j - 1) s2) @ remove_gaps (s2 ! (j - 1) # a2)"
      by (simp add: p rank_def in_grid_def)
    from step[OF diag(2) this] show ?thesis by (simp add: p)
  next
    case up
    with less.hyps[of "(s1 ! (i - 1) # a1, gap # a2, i - 1, j)"] ij ij'
    show ?thesis by (simp add: p rank_def in_grid_def remove_gaps_Cons)
  next
    case left
    with less.hyps[of "(gap # a1, s2 ! (j - 1) # a2, i, j - 1)"] ij ij'
    have "\<exists>k \<le> j - 1. remove_gaps (snd r) =
                drop k (take (j - 1) s2) @ remove_gaps (s2 ! (j - 1) # a2)"
      by (simp add: p rank_def in_grid_def)
    from step[OF left(2) this] show ?thesis by (simp add: p)
  qed
qed

lemma drop_take_sublist: "sublist (drop k (take i xs)) xs"
proof -
  have "xs = take k (take i xs) @ drop k (take i xs) @ drop i xs"
    by (metis append_assoc append_take_drop_id)
  then show ?thesis unfolding sublist_def by blast
qed

lemma smith_waterman_Inr:
  assumes "smith_waterman s1 s2 sc = Some (Inr (best, alignments))"
  shows "scores_ok sc s1 s2 \<and>
         (\<exists>A L. fill sc s1 s2 = Inr (A, best, L) \<and>
            fill_inv (\<lambda>_. 0) sc s1 s2 (grid (length s1) (length s2)) (A, best, L) \<and>
            mset alignments = mset (concat (map (\<lambda>c. paths sc s1 s2 (start_partial c)) L)))"
proof -
  from assms obtain st where "fill sc s1 s2 = Inr st"
    by (cases "fill sc s1 s2") (auto simp: smith_waterman_unfold)
  then have ok: "scores_ok sc s1 s2" by (rule fill_Inr_scores_ok)
  from smith_waterman_returns[OF ok] assms show ?thesis using ok by auto
qed

text \<open>
  Claim C8 (as amended). For every alignment pair \<open>(alignment1, alignment2)\<close> that
  \<open>smith_waterman\<close> returns: if \<open>sequence1\<close> does not contain the gap symbol, deleting the gap
  symbols from \<open>alignment1\<close> yields a contiguous substring of \<open>sequence1\<close>; and if \<open>sequence2\<close>
  does not contain the gap symbol, deleting the gap symbols from \<open>alignment2\<close> yields a
  contiguous substring of \<open>sequence2\<close>. (\<open>sublist xs ys\<close> is \<open>\<exists>ps ss. ys = ps @ xs @ ss\<close>.)
\<close>

theorem backtrace_substring:
  assumes "smith_waterman sequence1 sequence2 sc = Some (Inr (best, alignments))"
    and "(alignment1, alignment2) \<in> set alignments"
  shows "(gap \<notin> set sequence1 \<longrightarrow> sublist (remove_gaps alignment1) sequence1) \<and>
         (gap \<notin> set sequence2 \<longrightarrow> sublist (remove_gaps alignment2) sequence2)"
proof -
  let ?g = "grid (length sequence1) (length sequence2)"
  from smith_waterman_Inr[OF assms(1)] obtain A L where
    inv: "fill_inv (\<lambda>_. 0) sc sequence1 sequence2 ?g (A, best, L)"
    and ms: "mset alignments =
        mset (concat (map (\<lambda>c. paths sc sequence1 sequence2 (start_partial c)) L))"
    by blast
  from ms have "set alignments =
      set (concat (map (\<lambda>c. paths sc sequence1 sequence2 (start_partial c)) L))"
    by (rule mset_eq_setD)
  with assms(2) obtain c where c: "c \<in> set L"
    and r: "(alignment1, alignment2) \<in> set (paths sc sequence1 sequence2 (start_partial c))"
    by auto
  from inv c have "c \<in> set ?g" by (auto simp: fill_inv_def)
  then have ing: "in_grid sequence1 sequence2 (start_partial c)"
    by (auto simp: set_grid in_grid_def start_partial_def)
  show ?thesis
  proof (intro conjI impI)
    assume "gap \<notin> set sequence1"
    from paths_remove_gaps1[OF this r ing]
    show "sublist (remove_gaps alignment1) sequence1"
      by (auto simp: start_partial_def remove_gaps_def split: prod.splits intro: drop_take_sublist)
  next
    assume "gap \<notin> set sequence2"
    from paths_remove_gaps2[OF this r ing]
    show "sublist (remove_gaps alignment2) sequence2"
      by (auto simp: start_partial_def remove_gaps_def split: prod.splits intro: drop_take_sublist)
  qed
qed

theorem backtrace_substring_witness:
  "smith_waterman ''GAC'' ''AC'' default_scheme = Some (Inr (2, [(''AC'', ''AC'')])) \<and>
   sublist (remove_gaps ''AC'') ''GAC'' \<and> sublist (remove_gaps ''AC'') ''AC''"
proof -
  have sw: "smith_waterman ''GAC'' ''AC'' default_scheme = Some (Inr (2, [(''AC'', ''AC'')]))"
    by (simp add: sw_eval)
  from backtrace_substring[OF sw, of "''AC''" "''AC''"] sw show ?thesis
    by (simp add: gap_def)
qed

text \<open>
  The claim as stated fails when an input sequence contains the gap symbol: the symbol is
  copied into the alignment like any other, and deleting it leaves a string that is not a
  substring of the input.
\<close>

theorem gap_in_sequence_breaks_substring:
  "smith_waterman ''AA-A'' ''AAA'' default_scheme =
     Some (Inr (2, [(''AA'', ''AA''), (''AA'', ''AA''), (''AA-A'', ''AA-A'')])) \<and>
   \<not> sublist (remove_gaps ''AA-A'') ''AA-A''"
  by (simp add: sw_eval remove_gaps_def sublist_Cons_right prefix_Cons)

subsection \<open>Duplicates among the alignments\<close>

lemma distinct_guarded3:
  assumes "distinct D" "distinct U" "distinct W"
    and "set D \<inter> set U = {}" "set D \<inter> set W = {}" "set U \<inter> set W = {}"
  shows "distinct ((if a then D else []) @ (if b then U else []) @ (if c then W else []))"
  using assms by auto

lemma paths_distinct:
  assumes nog1: "gap \<notin> set s1" and nog2: "gap \<notin> set s2"
  shows "in_grid s1 s2 p \<Longrightarrow> distinct (paths sc s1 s2 p)"
proof (induction "rank p" arbitrary: p rule: less_induct)
  case less
  obtain a1 a2 i j where p: "p = (a1, a2, i, j)" by (cases p)
  from less.prems have ij: "i \<le> length s1" "j \<le> length s2" by (simp_all add: p in_grid_def)
  then have ij': "i - Suc 0 \<le> length s1" "j - Suc 0 \<le> length s2" by simp_all
  show ?case
  proof (cases "i = 0 \<or> j = 0 \<or> recurrence sc s1 s2 i j = 0")
    case True
    then show ?thesis by (simp add: p paths_zero)
  next
    case False
    then have pos: "0 < i" "0 < j" by simp_all
    define c1 where "c1 = s1 ! (i - 1)"
    define c2 where "c2 = s2 ! (j - 1)"
    define D where "D = paths sc s1 s2 (c1 # a1, c2 # a2, i - 1, j - 1)"
    define U where "U = paths sc s1 s2 (c1 # a1, gap # a2, i - 1, j)"
    define W where "W = paths sc s1 s2 (gap # a1, c2 # a2, i, j - 1)"
    from pos ij have "c1 \<in> set s1" "c2 \<in> set s2" by (simp_all add: c1_def c2_def)
    with nog1 nog2 have ng: "c1 \<noteq> gap" "c2 \<noteq> gap" by auto
    have dD: "distinct D" unfolding D_def
      using pos ij ij' by (intro less.hyps) (simp_all add: p rank_def in_grid_def)
    have dU: "distinct U" unfolding U_def
      using pos ij ij' by (intro less.hyps) (simp_all add: p rank_def in_grid_def)
    have dW: "distinct W" unfolding W_def
      using pos ij ij' by (intro less.hyps) (simp_all add: p rank_def in_grid_def)
    have sD: "suffix (c1 # a1) (fst r) \<and> suffix (c2 # a2) (snd r)" if "r \<in> set D" for r
      using paths_suffix[OF that[unfolded D_def]] by simp
    have sU: "suffix (c1 # a1) (fst r) \<and> suffix (gap # a2) (snd r)" if "r \<in> set U" for r
      using paths_suffix[OF that[unfolded U_def]] by simp
    have sW: "suffix (gap # a1) (fst r) \<and> suffix (c2 # a2) (snd r)" if "r \<in> set W" for r
      using paths_suffix[OF that[unfolded W_def]] by simp
    have DU: "set D \<inter> set U = {}"
    proof (rule ccontr)
      assume "set D \<inter> set U \<noteq> {}"
      then obtain r where "r \<in> set D" "r \<in> set U" by auto
      with sD[of r] sU[of r] have "c2 = gap" by (intro suffix_Cons_same[of c2 a2 "snd r"]) simp_all
      with ng show False by simp
    qed
    have DW: "set D \<inter> set W = {}"
    proof (rule ccontr)
      assume "set D \<inter> set W \<noteq> {}"
      then obtain r where "r \<in> set D" "r \<in> set W" by auto
      with sD[of r] sW[of r] have "c1 = gap" by (intro suffix_Cons_same[of c1 a1 "fst r"]) simp_all
      with ng show False by simp
    qed
    have UW: "set U \<inter> set W = {}"
    proof (rule ccontr)
      assume "set U \<inter> set W \<noteq> {}"
      then obtain r where "r \<in> set U" "r \<in> set W" by auto
      with sU[of r] sW[of r] have "c1 = gap" by (intro suffix_Cons_same[of c1 a1 "fst r"]) simp_all
      with ng show False by simp
    qed
    have "paths sc s1 s2 (a1, a2, i, j) =
        (if recurrence sc s1 s2 i j =
              recurrence sc s1 s2 (i - 1) (j - 1) + sub sc c1 c2 then D else []) @
        (if recurrence sc s1 s2 i j = recurrence sc s1 s2 (i - 1) j + gap_penalty sc
         then U else []) @
        (if recurrence sc s1 s2 i j = recurrence sc s1 s2 i (j - 1) + gap_penalty sc
         then W else [])"
      using False by (subst paths.simps) (simp add: D_def U_def W_def c1_def c2_def)
    then show ?thesis
      unfolding p by (simp only: distinct_guarded3[OF dD dU dW DU DW UW])
  qed
qed

lemma mset_concat_map_cong:
  "\<forall>c \<in> set cs. mset (f c) = mset (g c) \<Longrightarrow>
   mset (concat (map f cs)) = mset (concat (map g cs))"
  by (induction cs) simp_all

lemma count_concat_distinct_eq:
  "\<forall>g \<in> set gs. distinct g \<Longrightarrow>
   count_list (concat gs) x = length (filter (\<lambda>g. x \<in> set g) gs)"
proof (induction gs)
  case Nil
  then show ?case by simp
next
  case (Cons g gs)
  then have "distinct g" by simp
  then have "count_list g x = (if x \<in> set g then 1 else 0)"
    by (metis count_mset distinct_count_atmost_1)
  with Cons show ?case by simp
qed

lemma backtrace_single_location:
  assumes A: "filled sc s1 s2 A" and ok: "scores_ok sc s1 s2"
    and c: "c \<in> set (grid (length s1) (length s2))"
  shows "\<exists>g. backtrace sc s1 s2 A [start_partial c] [] = Some (Inr g) \<and>
             mset g = mset (paths sc s1 s2 (start_partial c))"
proof -
  from c have "\<forall>p \<in> set [start_partial c].
      in_grid s1 s2 p \<and> rank p < Suc (length s1 + length s2)"
    by (fastforce simp: set_grid in_grid_def rank_def start_partial_def)
  from backtrace_paths[OF A ok this, of "[]"] show ?thesis by simp
qed

text \<open>
  Claim C2 (as amended). The alignments are returned as a list, and a pair can occur in it
  more than once: once for each best location (a cell that holds \<open>best_score\<close>) from which the
  backtrace reaches it. For input sequences that do not contain the gap symbol: the backtrace
  started from a single best location returns pairwise distinct alignments; the list that
  \<open>smith_waterman\<close> returns is, up to the order of its entries, the concatenation of these
  groups, one per best location; so a pair occurs in it exactly as many times as there are
  best locations whose backtrace yields it, and at most as many times as there are best
  locations.
\<close>

theorem alignments_distinct_per_location:
  assumes "gap \<notin> set sequence1" and "gap \<notin> set sequence2"
    and "smith_waterman sequence1 sequence2 sc = Some (Inr (best, alignments))"
  shows "\<exists>A best_locations groups.
           fill sc sequence1 sequence2 = Inr (A, best, best_locations) \<and>
           length groups = length best_locations \<and>
           (\<forall>k < length best_locations.
              backtrace sc sequence1 sequence2 A [start_partial (best_locations ! k)] [] =
                Some (Inr (groups ! k)) \<and>
              distinct (groups ! k)) \<and>
           mset alignments = mset (concat groups) \<and>
           (\<forall>x. count_list alignments x = length (filter (\<lambda>g. x \<in> set g) groups)) \<and>
           (\<forall>x. count_list alignments x \<le> length best_locations)"
proof -
  let ?g = "grid (length sequence1) (length sequence2)"
  let ?paths = "\<lambda>c. paths sc sequence1 sequence2 (start_partial c)"
  from smith_waterman_Inr[OF assms(3)] obtain A L where
    ok: "scores_ok sc sequence1 sequence2"
    and f: "fill sc sequence1 sequence2 = Inr (A, best, L)"
    and inv: "fill_inv (\<lambda>_. 0) sc sequence1 sequence2 ?g (A, best, L)"
    and ms: "mset alignments = mset (concat (map ?paths L))"
    by blast
  have fA: "filled sc sequence1 sequence2 A" by (rule fill_inv_filled[OF inv])
  from inv have Lg: "set L \<subseteq> set ?g" by (auto simp: fill_inv_def)
  define grp where "grp c =
      (case backtrace sc sequence1 sequence2 A [start_partial c] [] of
         Some (Inr g) \<Rightarrow> g | _ \<Rightarrow> [])" for c
  have grp: "backtrace sc sequence1 sequence2 A [start_partial c] [] = Some (Inr (grp c)) \<and>
      mset (grp c) = mset (?paths c) \<and> distinct (grp c)" if "c \<in> set L" for c
  proof -
    from that Lg have cg: "c \<in> set ?g" by auto
    from backtrace_single_location[OF fA ok cg] obtain g where
      g: "backtrace sc sequence1 sequence2 A [start_partial c] [] = Some (Inr g)"
      and m: "mset g = mset (?paths c)" by blast
    from cg have "in_grid sequence1 sequence2 (start_partial c)"
      by (auto simp: set_grid in_grid_def start_partial_def)
    from paths_distinct[OF assms(1,2) this] have "distinct (?paths c)" .
    with m have "distinct g" by (metis mset_eq_imp_distinct_iff)
    with g m show ?thesis by (simp add: grp_def)
  qed
  let ?groups = "map grp L"
  have d: "\<forall>g \<in> set ?groups. distinct g" using grp by auto
  have ms': "mset alignments = mset (concat ?groups)"
    unfolding ms by (rule mset_concat_map_cong[symmetric]) (simp add: grp)
  have cnt: "count_list alignments x = length (filter (\<lambda>g. x \<in> set g) ?groups)" for x
  proof -
    have "count_list alignments x = count (mset alignments) x" by (simp add: count_mset)
    also have "\<dots> = count_list (concat ?groups) x" by (simp add: ms' count_mset)
    also have "\<dots> = length (filter (\<lambda>g. x \<in> set g) ?groups)"
      by (rule count_concat_distinct_eq[OF d])
    finally show ?thesis .
  qed
  have le: "count_list alignments x \<le> length L" for x
  proof -
    have "length (filter (\<lambda>g. x \<in> set g) ?groups) \<le> length ?groups" by (rule length_filter_le)
    then show ?thesis by (simp add: cnt)
  qed
  have per: "\<forall>k < length L.
      backtrace sc sequence1 sequence2 A [start_partial (L ! k)] [] = Some (Inr (?groups ! k)) \<and>
      distinct (?groups ! k)"
    using grp by simp
  have all: "fill sc sequence1 sequence2 = Inr (A, best, L) \<and>
      length ?groups = length L \<and>
      (\<forall>k < length L.
         backtrace sc sequence1 sequence2 A [start_partial (L ! k)] [] =
           Some (Inr (?groups ! k)) \<and>
         distinct (?groups ! k)) \<and>
      mset alignments = mset (concat ?groups) \<and>
      (\<forall>x. count_list alignments x = length (filter (\<lambda>g. x \<in> set g) ?groups)) \<and>
      (\<forall>x. count_list alignments x \<le> length L)"
    using f per ms' cnt le by (intro conjI) simp_all
  show ?thesis
    by (rule exI[of _ A], rule exI[of _ L], rule exI[of _ ?groups]) (rule all)
qed

theorem alignments_distinct_per_location_witness:
  "\<exists>A best_locations groups.
     fill default_scheme ''A'' ''AA'' = Inr (A, 1, best_locations) \<and>
     length groups = length best_locations \<and>
     (\<forall>k < length best_locations.
        backtrace default_scheme ''A'' ''AA'' A [start_partial (best_locations ! k)] [] =
          Some (Inr (groups ! k)) \<and>
        distinct (groups ! k)) \<and>
     mset [(''A'', ''A''), (''A'', ''A'')] = mset (concat groups) \<and>
     (\<forall>x. count_list [(''A'', ''A''), (''A'', ''A'')] x =
          length (filter (\<lambda>g. x \<in> set g) groups)) \<and>
     (\<forall>x. count_list [(''A'', ''A''), (''A'', ''A'')] x \<le> length best_locations)"
proof -
  have sw: "smith_waterman ''A'' ''AA'' default_scheme =
      Some (Inr (1, [(''A'', ''A''), (''A'', ''A'')]))"
    by (simp add: sw_eval)
  have "gap \<notin> set ''A''" "gap \<notin> set ''AA''" by (simp_all add: gap_def)
  from alignments_distinct_per_location[OF this sw] show ?thesis .
qed

text \<open>
  The claim as stated fails: for \<open>sequence1 = "A"\<close> and \<open>sequence2 = "AA"\<close> under the default
  scheme both cells hold the best score 1, and each yields the pair \<open>("A", "A")\<close>.
\<close>

theorem same_alignment_returned_twice:
  "smith_waterman ''A'' ''AA'' default_scheme =
     Some (Inr (1, [(''A'', ''A''), (''A'', ''A'')])) \<and>
   \<not> distinct [(''A'', ''A''), (''A'', ''A'')]"
  by (simp add: sw_eval)

subsection \<open>The gap symbol inside an input sequence\<close>

lemma for_loop_Inl_elem:
  "for_loop body xs s = Inl e \<Longrightarrow> \<exists>x \<in> set xs. \<exists>s'. body s' x = Inl e"
proof (induction xs arbitrary: s)
  case Nil
  then show ?case by simp
next
  case (Cons x xs)
  then show ?case by (cases "body s x") auto
qed

lemma for_loop_first_failure:
  assumes "\<And>s x. x \<in> set pre \<Longrightarrow> \<exists>s'. body s x = Inr s'"
    and "\<And>s. body s x = Inl e"
  shows "for_loop body (pre @ x # post) s = Inl e"
  using assms(1)
proof (induction pre arbitrary: s)
  case Nil
  then show ?case by (simp add: assms(2))
next
  case (Cons y ys)
  from Cons.prems[of y s] obtain s' where "body s y = Inr s'" by auto
  moreover have "for_loop body (ys @ x # post) s' = Inl e"
    using Cons.prems by (intro Cons.IH) simp
  ultimately show ?case by simp
qed

lemma fill_cell_Inr:
  "score sc [s1 ! (i - 1)] [s2 ! (j - 1)] = Inr d \<Longrightarrow> \<exists>st'. fill_cell sc s1 s2 i st j = Inr st'"
  by (cases st) (simp add: fill_cell_def Let_def)

lemma fill_Inl_cell:
  assumes "fill sc s1 s2 = Inl e"
  shows "\<exists>a \<in> set s1. \<exists>b \<in> set s2. score sc [a] [b] = Inl e"
proof -
  from assms for_loop_Inl_elem[of "\<lambda>st (i, j). fill_cell sc s1 s2 i st j"]
  obtain c st where c: "c \<in> set (grid (length s1) (length s2))"
    and bad: "(case c of (i, j) \<Rightarrow> fill_cell sc s1 s2 i st j) = Inl e"
    unfolding fill_flat by blast
  obtain i j where ij: "c = (i, j)" by (cases c)
  from bad have "score sc [s1 ! (i - 1)] [s2 ! (j - 1)] = Inl e"
    by (simp add: ij fill_cell_Inl_iff)
  moreover from c have "i - 1 < length s1" "j - 1 < length s2"
    by (auto simp: ij set_grid)
  then have "s1 ! (i - 1) \<in> set s1" "s2 ! (j - 1) \<in> set s2"
    by (simp_all only: nth_mem)
  ultimately show ?thesis by blast
qed

text \<open>
  Claim C10. The gap symbol inside an input sequence is scored as a gap. (1) Against any other
  symbol it scores \<open>gap_penalty\<close>, whatever matrix is loaded. (2) In a fill that completes, the
  cell of a gap symbol of one input takes \<open>gap_penalty\<close> as its diagonal term too. (3) When the
  fill, visiting the cells in row-major order, reaches a cell that compares a gap symbol of
  \<open>sequence1\<close> with a gap symbol of \<open>sequence2\<close> (every earlier cell was scored),
  \<open>smith_waterman\<close> raises \<open>ValueError\<close>. (4) If both inputs contain the gap symbol the call
  always raises, and it raises \<open>ValueError\<close> if every pair of symbols other than two gaps can
  be scored.
\<close>

theorem gap_symbol_in_input:
  "(c \<noteq> gap \<longrightarrow> score sc [gap] [c] = Inr (gap_penalty sc) \<and>
                  score sc [c] [gap] = Inr (gap_penalty sc)) \<and>
   (fill sc s1 s2 = Inr (A, best_score, best_locations) \<and> i < length s1 \<and> j < length s2 \<and>
    (s1 ! i = gap \<or> s2 ! j = gap) \<longrightarrow>
      A (Suc i, Suc j) = max4 (A (i, j) + gap_penalty sc) (A (i, Suc j) + gap_penalty sc)
                              (A (Suc i, j) + gap_penalty sc) 0) \<and>
   (grid (length s1) (length s2) = pre @ (Suc i, Suc j) # post \<and>
    (\<forall>(i', j') \<in> set pre. \<exists>v. score sc [s1 ! (i' - 1)] [s2 ! (j' - 1)] = Inr v) \<and>
    s1 ! i = gap \<and> s2 ! j = gap \<longrightarrow>
      smith_waterman s1 s2 sc = Some (Inl ValueError)) \<and>
   (gap \<in> set s1 \<and> gap \<in> set s2 \<longrightarrow>
      (\<exists>e. smith_waterman s1 s2 sc = Some (Inl e) \<and>
           ((\<forall>a \<in> set s1. \<forall>b \<in> set s2. a = gap \<and> b = gap \<or> (\<exists>v. score sc [a] [b] = Inr v))
            \<longrightarrow> e = ValueError)))"
proof (intro conjI impI)
  assume "c \<noteq> gap"
  then show "score sc [gap] [c] = Inr (gap_penalty sc)" "score sc [c] [gap] = Inr (gap_penalty sc)"
    by (simp_all add: score_single)
next
  assume a: "fill sc s1 s2 = Inr (A, best_score, best_locations) \<and> i < length s1 \<and>
    j < length s2 \<and> (s1 ! i = gap \<or> s2 ! j = gap)"
  then have ok: "scores_ok sc s1 s2" by (auto dest: fill_Inr_scores_ok)
  from fill_correct[OF ok] a
  have "fill_inv (\<lambda>_. 0) sc s1 s2 (grid (length s1) (length s2)) (A, best_score, best_locations)" by simp
  then have A: "filled sc s1 s2 A" by (rule fill_inv_filled)
  from a have ij: "i < length s1" "j < length s2" by simp_all
  from scores_ok_nth[OF ok ij] a have "score sc [s1 ! i] [s2 ! j] = Inr (gap_penalty sc)"
    by (auto simp: score_single split: if_splits)
  then have "sub sc (s1 ! i) (s2 ! j) = gap_penalty sc" by (simp add: sub_def)
  moreover have "A (Suc i, Suc j) = recurrence sc s1 s2 (Suc i) (Suc j)"
    "A (i, j) = recurrence sc s1 s2 i j" "A (i, Suc j) = recurrence sc s1 s2 i (Suc j)"
    "A (Suc i, j) = recurrence sc s1 s2 (Suc i) j"
    using A ij unfolding filled_def by (simp_all del: recurrence.simps)
  ultimately show "A (Suc i, Suc j) = max4 (A (i, j) + gap_penalty sc)
      (A (i, Suc j) + gap_penalty sc) (A (Suc i, j) + gap_penalty sc) 0"
    by simp
next
  assume a: "grid (length s1) (length s2) = pre @ (Suc i, Suc j) # post \<and>
    (\<forall>(i', j') \<in> set pre. \<exists>v. score sc [s1 ! (i' - 1)] [s2 ! (j' - 1)] = Inr v) \<and>
    s1 ! i = gap \<and> s2 ! j = gap"
  let ?body = "\<lambda>st (i, j). fill_cell sc s1 s2 i st j"
  have "for_loop ?body (pre @ (Suc i, Suc j) # post) (\<lambda>_. 0, 0, []) = Inl ValueError"
  proof (rule for_loop_first_failure)
    fix st x assume "x \<in> set pre"
    with a obtain v where "score sc [s1 ! (fst x - 1)] [s2 ! (snd x - 1)] = Inr v"
      by (cases x) auto
    from fill_cell_Inr[OF this] show "\<exists>s'. ?body st x = Inr s'" by (cases x) simp
  next
    fix st
    from a have "score sc [s1 ! i] [s2 ! j] = Inl ValueError" by (simp add: score_single)
    then show "?body st (Suc i, Suc j) = Inl ValueError" by (simp add: fill_cell_raises)
  qed
  with a have "fill sc s1 s2 = Inl ValueError" by (simp add: fill_flat)
  then show "smith_waterman s1 s2 sc = Some (Inl ValueError)" by (rule smith_waterman_raises)
next
  assume a: "gap \<in> set s1 \<and> gap \<in> set s2"
  have "\<not> scores_ok sc s1 s2"
    using a by (auto simp: scores_ok_def score_single intro!: bexI[of _ gap])
  with fill_Inl_or_ok[of sc s1 s2] obtain e where e: "fill sc s1 s2 = Inl e" by blast
  have "e = ValueError"
    if "\<forall>a \<in> set s1. \<forall>b \<in> set s2. a = gap \<and> b = gap \<or> (\<exists>v. score sc [a] [b] = Inr v)"
  proof -
    from fill_Inl_cell[OF e] obtain x y where "x \<in> set s1" "y \<in> set s2"
      and bad: "score sc [x] [y] = Inl e" by blast
    with that have "x = gap \<and> y = gap" by fastforce
    with bad show ?thesis by (simp add: score_single)
  qed
  with smith_waterman_raises[OF e]
  show "\<exists>e. smith_waterman s1 s2 sc = Some (Inl e) \<and>
           ((\<forall>a \<in> set s1. \<forall>b \<in> set s2. a = gap \<and> b = gap \<or> (\<exists>v. score sc [a] [b] = Inr v))
            \<longrightarrow> e = ValueError)"
    by blast
qed


theorem gap_symbol_in_input_witness:
  "score default_scheme [gap] ''A'' = Inr (- 1) \<and> score default_scheme ''A'' [gap] = Inr (- 1) \<and>
   (\<exists>A b L. fill default_scheme ''A-'' ''A'' = Inr (A, b, L) \<and>
      A (2, 1) = max4 (A (1, 0) + - 1) (A (1, 1) + - 1) (A (2, 0) + - 1) 0) \<and>
   smith_waterman ''A-'' ''-'' default_scheme = Some (Inl ValueError)"
proof -
  have gp: "gap_penalty default_scheme = - 1"
    by (simp add: default_scheme_def ScoringScheme_def)
  have f: "fill default_scheme ''A-'' ''A'' =
      Inr ((\<lambda>_. 0)((1, 1) := 1, (2, 1) := 0), 1, [(1, 1)])"
    by (simp add: sw_eval numeral_2_eq_2)
  have g: "grid (length ''A-'') (length ''-'') = [(1, 1)] @ (Suc 1, Suc 0) # []"
    by (simp add: grid_def)
  have pre: "\<forall>(i', j') \<in> set [(1, 1)].
      \<exists>v. score default_scheme [''A-'' ! (i' - 1)] [''-'' ! (j' - 1)] = Inr v"
    by (simp add: score_single gap_def)
  note t = gap_symbol_in_input[where sc = default_scheme and c = "CHR ''A''"
      and i = 1 and j = 0]
  from t[where ?s1.0 = "''A-''" and ?s2.0 = "''A''" and A = "(\<lambda>_. 0)((1, 1) := 1, (2, 1) := 0)"
      and best_score = 1 and best_locations = "[(1, 1)]"] f
  have p12: "score default_scheme [gap] ''A'' = Inr (- 1) \<and>
      score default_scheme ''A'' [gap] = Inr (- 1) \<and>
      (\<exists>A b L. fill default_scheme ''A-'' ''A'' = Inr (A, b, L) \<and>
        A (2, 1) = max4 (A (1, 0) + - 1) (A (1, 1) + - 1) (A (2, 0) + - 1) 0)"
    by (simp add: gp gap_def max4_def)
  from t[where ?s1.0 = "''A-''" and ?s2.0 = "''-''" and pre = "[(1, 1)]" and post = "[]"] g pre
  have "smith_waterman ''A-'' ''-'' default_scheme = Some (Inl ValueError)"
    by (simp add: gap_def)
  with p12 show ?thesis by simp
qed

subsection \<open>The whole-alignment scorer and the gap start penalty\<close>

lemma score_step_cong:
  assumes "0 < i \<Longrightarrow> t1 ! (i - 1) = s1 ! (i - 1) \<and> t2 ! (i - 1) = s2 ! (i - 1)"
  shows "score_step sc t1 t2 v (i, a, b) = score_step sc s1 s2 v (i, a, b)"
  using assms by (auto simp: score_step_def)

lemma score_prefix_step:
  assumes i: "i < length s1" "i < length s2"
  shows "score sc (take (Suc i) s1) (take (Suc i) s2) =
           (case score sc (take i s1) (take i s2) of
              Inl e \<Rightarrow> Inl e
            | Inr v \<Rightarrow> score_step sc s1 s2 v (i, s1 ! i, s2 ! i))"
proof -
  let ?p = "zip (take i s1) (take i s2)"
  let ?t1 = "take (Suc i) s1" and ?t2 = "take (Suc i) s2"
  from i have lp: "length ?p = i" by simp
  have z: "zip ?t1 ?t2 = ?p @ [(s1 ! i, s2 ! i)]"
    using i by (simp add: take_Suc_conv_app_nth)
  have en: "enumerate 0 (zip ?t1 ?t2) = enumerate 0 ?p @ [(i, s1 ! i, s2 ! i)]"
    unfolding z enumerate_append_eq lp by simp
  have pre: "for_loop (score_step sc ?t1 ?t2) (enumerate 0 ?p) 0 =
      for_loop (score_step sc (take i s1) (take i s2)) (enumerate 0 ?p) 0"
  proof (rule for_loop_cong_elems)
    fix v :: real and x :: "nat \<times> char \<times> char"
    assume mem: "x \<in> set (enumerate 0 ?p)"
    obtain k a b where x: "x = (k, a, b)" by (cases x)
    from mem have k: "k < i" unfolding x in_set_enumerate_eq lp by simp
    have "score_step sc ?t1 ?t2 v (k, a, b) = score_step sc (take i s1) (take i s2) v (k, a, b)"
      using k by (intro score_step_cong) simp
    then show "score_step sc ?t1 ?t2 v x = score_step sc (take i s1) (take i s2) v x"
      by (simp only: x)
  qed
  have last: "score_step sc ?t1 ?t2 v (i, s1 ! i, s2 ! i) = score_step sc s1 s2 v (i, s1 ! i, s2 ! i)"
    for v
    by (intro score_step_cong) simp
  have "score sc ?t1 ?t2 =
      (case for_loop (score_step sc ?t1 ?t2) (enumerate 0 ?p) 0 of
         Inl e \<Rightarrow> Inl e
       | Inr v \<Rightarrow> score_step sc ?t1 ?t2 v (i, s1 ! i, s2 ! i))"
    unfolding score_def en for_loop_append by (simp split: sum.splits)
  also have "\<dots> = (case score sc (take i s1) (take i s2) of
         Inl e \<Rightarrow> Inl e
       | Inr v \<Rightarrow> score_step sc s1 s2 v (i, s1 ! i, s2 ! i))"
    unfolding pre last score_def ..
  finally show ?thesis .
qed

text \<open>The backtrace depends on the scheme only through the body of its inner loop.\<close>

lemma backtrace_step_only:
  assumes ret: "backtrace x s1 s2 A ps als = Some r"
    and st: "backtrace_step x s1 s2 A = backtrace_step y s1 s2 A"
  shows "backtrace y s1 s2 A ps als = Some r"
proof -
  have "backtrace_step x s1 s2 A = backtrace_step y s1 s2 A \<longrightarrow>
      backtrace y s1 s2 A ps als = Some r"
  proof (rule backtrace.raw_induct[where P = "\<lambda>x s1 s2 A ps als r.
        backtrace_step x s1 s2 A = backtrace_step y s1 s2 A \<longrightarrow>
        backtrace y s1 s2 A ps als = Some r", OF _ ret])
    fix f x s1 s2 A ps als r
    assume IH: "\<And>x s1 s2 A ps als r. f x s1 s2 A ps als = Some r \<Longrightarrow>
        backtrace_step x s1 s2 A = backtrace_step y s1 s2 A \<longrightarrow>
        backtrace y s1 s2 A ps als = Some r"
      and eq: "(if 0 < length ps then
          (case for_loop (backtrace_step x s1 s2 A) ps (als, []) of
             Inl e \<Rightarrow> Some (Inl e)
           | Inr (alignments', next_partials) \<Rightarrow> f x s1 s2 A next_partials alignments')
        else Some (Inr als)) = Some r"
    show "backtrace_step x s1 s2 A = backtrace_step y s1 s2 A \<longrightarrow>
        backtrace y s1 s2 A ps als = Some r"
    proof
      assume st: "backtrace_step x s1 s2 A = backtrace_step y s1 s2 A"
      show "backtrace y s1 s2 A ps als = Some r"
      proof (cases "ps = []")
        case True
        with eq show ?thesis by (simp add: backtrace_Nil)
      next
        case False
        show ?thesis
        proof (cases "for_loop (backtrace_step x s1 s2 A) ps (als, [])")
          case (Inl e)
          with eq False st show ?thesis by (simp add: backtrace_Cons)
        next
          case (Inr p)
          obtain als' nx where p: "p = (als', nx)" by (cases p)
          from eq False Inr p have "f x s1 s2 A nx als' = Some r" by simp
          from IH[OF this] st have "backtrace y s1 s2 A nx als' = Some r" by simp
          with False Inr p st show ?thesis by (simp add: backtrace_Cons)
        qed
      qed
    qed
  qed
  with st show ?thesis by simp
qed

lemma backtrace_cong_step:
  assumes "backtrace_step sc' s1 s2 A = backtrace_step sc s1 s2 A"
  shows "backtrace sc' s1 s2 A ps als = backtrace sc s1 s2 A ps als"
proof (cases "backtrace sc' s1 s2 A ps als")
  case None
  show ?thesis
  proof (cases "backtrace sc s1 s2 A ps als")
    case None': None
    with None show ?thesis by simp
  next
    case (Some r)
    from backtrace_step_only[OF Some assms[symmetric]] None show ?thesis by simp
  qed
next
  case (Some r)
  from backtrace_step_only[OF Some assms] Some show ?thesis by simp
qed

lemma score_gap_start_penalty:
  "score (sc\<lparr>gap_start_penalty := x\<rparr>) [a] [b] = score sc [a] [b]"
  by (simp add: score_single split: option.splits)

lemma smith_waterman_gap_start_penalty:
  "smith_waterman s1 s2 (sc\<lparr>gap_start_penalty := x\<rparr>) = smith_waterman s1 s2 sc"
proof -
  have c: "fill_cell (sc\<lparr>gap_start_penalty := x\<rparr>) s1 s2 = fill_cell sc s1 s2"
    by (intro ext) (simp add: fill_cell_def score_gap_start_penalty split: prod.splits sum.splits)
  have b: "backtrace_step (sc\<lparr>gap_start_penalty := x\<rparr>) s1 s2 A = backtrace_step sc s1 s2 A" for A
    by (intro ext) (simp add: backtrace_step_def score_gap_start_penalty
        split: prod.splits sum.splits)
  have f: "fill (sc\<lparr>gap_start_penalty := x\<rparr>) s1 s2 = fill sc s1 s2"
    by (simp only: fill_unfold c)
  show ?thesis
    unfolding smith_waterman_unfold f backtrace_cong_step[OF b] ..
qed

text \<open>
  Claim C3 (as amended). In the whole-alignment scorer, at a column \<open>i\<close> where exactly one
  sequence has the gap symbol (the columns before it scored \<open>v\<close>), the scorer adds
  \<open>gap_penalty\<close>, and adds \<open>gap_start_penalty\<close> in addition exactly when \<open>i > 0\<close> and the
  previous column of the same sequence, the one that has the gap at column \<open>i\<close>, is not a gap;
  a gap in the first column adds \<open>gap_penalty\<close> only. \<open>gap_start_penalty\<close> affects no other
  result: the score of one symbol against another and the result of \<open>smith_waterman\<close> do not
  depend on it.
\<close>

theorem gap_column_score:
  "(i < length s1 \<and> i < length s2 \<and> (s1 ! i = gap) \<noteq> (s2 ! i = gap) \<and>
    score sc (take i s1) (take i s2) = Inr v \<longrightarrow>
      score sc (take (Suc i) s1) (take (Suc i) s2) =
        Inr (v + gap_penalty sc +
             (if 0 < i \<and> (if s1 ! i = gap then s1 else s2) ! (i - 1) \<noteq> gap
              then gap_start_penalty sc else 0))) \<and>
   score (sc\<lparr>gap_start_penalty := x\<rparr>) [a] [b] = score sc [a] [b] \<and>
   smith_waterman s1 s2 (sc\<lparr>gap_start_penalty := x\<rparr>) = smith_waterman s1 s2 sc"
proof (intro conjI impI)
  assume a: "i < length s1 \<and> i < length s2 \<and> (s1 ! i = gap) \<noteq> (s2 ! i = gap) \<and>
    score sc (take i s1) (take i s2) = Inr v"
  then have "score sc (take (Suc i) s1) (take (Suc i) s2) =
      score_step sc s1 s2 v (i, s1 ! i, s2 ! i)"
    by (simp add: score_prefix_step)
  with a show "score sc (take (Suc i) s1) (take (Suc i) s2) =
        Inr (v + gap_penalty sc +
             (if 0 < i \<and> (if s1 ! i = gap then s1 else s2) ! (i - 1) \<noteq> gap
              then gap_start_penalty sc else 0))"
    by (auto simp: score_step_def)
qed (rule score_gap_start_penalty, rule smith_waterman_gap_start_penalty)

theorem gap_column_score_witness:
  "score (ScoringScheme 1 (- 1) (- 1) (- 5)) ''AC-'' ''ACG'' = Inr (- 4) \<and>
   score (ScoringScheme 1 (- 1) (- 1) (- 5)) ''AC--'' ''ACGT'' = Inr (- 5) \<and>
   smith_waterman ''AC'' ''AC'' (default_scheme\<lparr>gap_start_penalty := - 5\<rparr>) =
     Some (Inr (2, [(''AC'', ''AC'')]))"
proof -
  let ?sc = "ScoringScheme 1 (- 1) (- 1) (- 5)"
  have s2: "score ?sc (take 2 ''AC--'') (take 2 ''ACGT'') = Inr 2"
    by (simp add: sw_eval)
  from gap_column_score[where sc = ?sc and i = 2 and ?s1.0 = "''AC--''" and ?s2.0 = "''ACGT''"
      and v = 2] s2
  have s3: "score ?sc (take 3 ''AC--'') (take 3 ''ACGT'') = Inr (- 4)"
    by (simp add: gap_def ScoringScheme_def eval_nat_numeral)
  from gap_column_score[where sc = ?sc and i = 3 and ?s1.0 = "''AC--''" and ?s2.0 = "''ACGT''"
      and v = "- 4"] s3
  have s4: "score ?sc (take 4 ''AC--'') (take 4 ''ACGT'') = Inr (- 5)"
    by (simp add: gap_def ScoringScheme_def eval_nat_numeral)
  have sw: "smith_waterman ''AC'' ''AC'' default_scheme = Some (Inr (2, [(''AC'', ''AC'')]))"
    by (simp add: sw_eval)
  from gap_column_score[where sc = default_scheme and x = "- 5" and ?s1.0 = "''AC''"
      and ?s2.0 = "''AC''"] sw
  have "smith_waterman ''AC'' ''AC'' (default_scheme\<lparr>gap_start_penalty := - 5\<rparr>) =
     Some (Inr (2, [(''AC'', ''AC'')]))" by simp
  with s3 s4 show ?thesis by simp
qed

text \<open>
  The claim as stated fails: in \<open>"--"\<close> against \<open>"AA"\<close> the first column is the first gap of a
  run, and before the second column the other sequence has no gap, yet with
  \<open>gap_start_penalty = -5\<close> the score is twice the gap penalty and nothing more.
\<close>

theorem leading_gap_has_no_start_penalty:
  "score (ScoringScheme 1 (- 1) (- 1) (- 5)) ''--'' ''AA'' = Inr (- 2)"
  by (simp add: sw_eval)

subsection \<open>Loading a matrix: failures\<close>

lemma skip_comments_append:
  "skip_comments ls = Inr (h, rest) \<Longrightarrow> skip_comments (ls @ ys) = Inr (h, rest @ ys)"
  by (induction ls) (auto split: list.splits if_splits)

lemma skip_comments_no_header:
  "\<forall>l \<in> set lines. \<exists>r. l = CHR ''#'' # r \<Longrightarrow> skip_comments lines = Inl IndexError"
  by (induction lines) auto

lemma fill_rows_append:
  "fill_rows float_of ix (xs @ ys) m =
     (case fill_rows float_of ix xs m of
        (Some e, m') \<Rightarrow> (Some e, m')
      | (None, m') \<Rightarrow> fill_rows float_of ix ys m')"
  by (induction xs arbitrary: m) (auto split: list.splits option.splits prod.splits)

lemma fill_row_stops:
  assumes "r < length m" "n + k \<le> length (m ! r)" "k < length row"
    "\<forall>j < k. float_of (row ! j) \<noteq> None" "float_of (row ! k) = None"
  shows "fill_row float_of r (enumerate n row) m =
     (Some ValueError,
      m[r := take n (m ! r) @ map (\<lambda>v. the (float_of v)) (take k row) @ drop (n + k) (m ! r)])"
  using assms
proof (induction row arbitrary: n k m)
  case Nil
  then show ?case by simp
next
  case (Cons v row)
  show ?case
  proof (cases k)
    case 0
    with Cons.prems show ?thesis by simp
  next
    case (Suc k')
    from Cons.prems(4) Suc obtain x where x: "float_of v = Some x" by fastforce
    let ?m = "m[r := (m ! r)[n := x]]"
    from Cons.prems Suc have n: "n < length (m ! r)" by simp
    have "fill_row float_of r (enumerate (Suc n) row) ?m =
      (Some ValueError,
       ?m[r := take (Suc n) (?m ! r) @ map (\<lambda>v. the (float_of v)) (take k' row) @
               drop (Suc n + k') (?m ! r)])"
      using Cons.prems Suc by (intro Cons.IH) auto
    moreover have "take (Suc n) ((m ! r)[n := x]) = take n (m ! r) @ [x]"
      using n by (simp add: take_Suc_conv_app_nth)
    ultimately show ?thesis
      using Cons.prems(1) n x Suc by simp
  qed
qed

lemma load_matrix_Some:
  "load_matrix float_of (Some lines) sc =
     (case skip_comments lines of
        Inl e \<Rightarrow> (Some e, sc)
      | Inr (headline, rest) \<Rightarrow>
          (fst (fill_rows float_of (header_index headline) rest
                  (replicate (length (header_index headline))
                     (replicate (length (header_index headline)) 0))),
           sc\<lparr>index_by_symbol := Some (header_index headline),
              scoring_matrix := Some (snd (fill_rows float_of (header_index headline) rest
                  (replicate (length (header_index headline))
                     (replicate (length (header_index headline)) 0))))\<rparr>))"
  by (simp add: load_matrix_def Let_def split: sum.splits prod.splits)

lemma load_matrix_ok_parts:
  assumes "load_matrix float_of (Some ls) sc = (None, sc1)"
  obtains h rest m1 where "skip_comments ls = Inr (h, rest)"
    and "fill_rows float_of (header_index h) rest
           (replicate (length (header_index h)) (replicate (length (header_index h)) 0)) =
         (None, m1)"
    and "sc1 = sc\<lparr>index_by_symbol := Some (header_index h), scoring_matrix := Some m1\<rparr>"
proof (cases "skip_comments ls")
  case (Inl e)
  with assms show ?thesis by (simp add: load_matrix_Some)
next
  case (Inr p)
  obtain h rest where p: "p = (h, rest)" by (cases p)
  let ?ix = "header_index h"
  obtain e m1 where f: "fill_rows float_of ?ix rest
      (replicate (length ?ix) (replicate (length ?ix) 0)) = (e, m1)" by fastforce
  with assms Inr p have "e = None"
    and "sc1 = sc\<lparr>index_by_symbol := Some ?ix, scoring_matrix := Some m1\<rparr>"
    by (simp_all add: load_matrix_Some)
  with that[of h rest m1] Inr p f show ?thesis by simp
qed

lemma load_matrix_failing_line:
  assumes ok: "load_matrix float_of (Some ls) sc = (None, sc1)"
    and ix: "index_by_symbol sc1 = Some ix" and m: "scoring_matrix sc1 = Some m"
    and bad: "fill_rows float_of ix [bad] m = (Some e, m')"
  shows "load_matrix float_of (Some (ls @ bad # post)) sc =
           (Some e, sc1\<lparr>scoring_matrix := Some m'\<rparr>)"
proof -
  from ok obtain h rest m1 where h: "skip_comments ls = Inr (h, rest)"
    and f: "fill_rows float_of (header_index h) rest
           (replicate (length (header_index h)) (replicate (length (header_index h)) 0)) =
         (None, m1)"
    and sc1: "sc1 = sc\<lparr>index_by_symbol := Some (header_index h), scoring_matrix := Some m1\<rparr>"
    by (rule load_matrix_ok_parts)
  from ix m sc1 have eq: "ix = header_index h" "m = m1" by simp_all
  have "fill_rows float_of ix (bad # post) m = (Some e, m')"
    using bad by (auto split: list.splits option.splits prod.splits)
  then have "fill_rows float_of (header_index h) (rest @ bad # post)
      (replicate (length (header_index h)) (replicate (length (header_index h)) 0)) = (Some e, m')"
    using f eq by (simp add: fill_rows_append)
  with skip_comments_append[OF h, of "bad # post"] show ?thesis
    by (simp add: load_matrix_Some sc1)
qed

text \<open>
  Claim C4 (as amended). \<open>load_matrix\<close> fails fast but is not atomic. (1) With no header line
  (an empty file, or comment lines only) it raises \<open>IndexError\<close> and leaves the scheme as it
  was. (2) At a data line whose row symbol is not in the header it raises \<open>KeyError\<close>, reads no
  later line, and leaves the scheme as the load of the lines before it leaves it: with the
  new header's \<open>index_by_symbol\<close> and a \<open>scoring_matrix\<close> that holds the rows read so far.
  (3) At a non-numeric score field it raises \<open>ValueError\<close>, reads nothing further, and leaves
  that scheme with the fields of the failing row before the bad one stored as well. (4) A
  header line without a symbol is not rejected: it loads an empty index and an empty matrix.
\<close>

theorem load_matrix_fails_fast_keeps_partial:
  "((\<forall>l \<in> set lines. \<exists>r. l = CHR ''#'' # r) \<longrightarrow>
      load_matrix float_of (Some lines) sc = (Some IndexError, sc)) \<and>
   (load_matrix float_of (Some ls) sc = (None, sc1) \<and> index_by_symbol sc1 = Some ix \<and>
    str_split bad = symbol # row \<and> map_of ix symbol = None \<longrightarrow>
      load_matrix float_of (Some (ls @ bad # post)) sc = (Some KeyError, sc1)) \<and>
   (load_matrix float_of (Some ls) sc = (None, sc1) \<and> index_by_symbol sc1 = Some ix \<and>
    scoring_matrix sc1 = Some m \<and>
    str_split bad = symbol # row \<and> map_of ix symbol = Some r \<and> r < length m \<and>
    k < length row \<and> k \<le> length (m ! r) \<and>
    (\<forall>j < k. float_of (row ! j) \<noteq> None) \<and> float_of (row ! k) = None \<longrightarrow>
      load_matrix float_of (Some (ls @ bad # post)) sc =
        (Some ValueError,
         sc1\<lparr>scoring_matrix :=
               Some (m[r := map (\<lambda>v. the (float_of v)) (take k row) @ drop k (m ! r)])\<rparr>)) \<and>
   (headline \<noteq> [] \<and> hd headline \<noteq> CHR ''#'' \<and> str_split headline = [] \<longrightarrow>
      load_matrix float_of (Some [headline]) sc =
        (None, sc\<lparr>index_by_symbol := Some [], scoring_matrix := Some []\<rparr>))"
proof (intro conjI impI)
  assume "\<forall>l \<in> set lines. \<exists>r. l = CHR ''#'' # r"
  then show "load_matrix float_of (Some lines) sc = (Some IndexError, sc)"
    by (simp add: load_matrix_Some skip_comments_no_header)
next
  assume "headline \<noteq> [] \<and> hd headline \<noteq> CHR ''#'' \<and> str_split headline = []"
  then show "load_matrix float_of (Some [headline]) sc =
        (None, sc\<lparr>index_by_symbol := Some [], scoring_matrix := Some []\<rparr>)"
    by (cases headline) (simp_all add: load_matrix_Some header_index_def)
next
  assume a: "load_matrix float_of (Some ls) sc = (None, sc1) \<and> index_by_symbol sc1 = Some ix \<and>
    str_split bad = symbol # row \<and> map_of ix symbol = None"
  then have ok: "load_matrix float_of (Some ls) sc = (None, sc1)" by simp
  from ok obtain h rest m1 where "skip_comments ls = Inr (h, rest)"
    and "fill_rows float_of (header_index h) rest
           (replicate (length (header_index h)) (replicate (length (header_index h)) 0)) =
         (None, m1)"
    and "sc1 = sc\<lparr>index_by_symbol := Some (header_index h), scoring_matrix := Some m1\<rparr>"
    by (rule load_matrix_ok_parts)
  then have m: "scoring_matrix sc1 = Some m1" by simp
  from a have "fill_rows float_of ix [bad] m1 = (Some KeyError, m1)" by simp
  from load_matrix_failing_line[OF _ _ m this, of ls sc post] a m
  show "load_matrix float_of (Some (ls @ bad # post)) sc = (Some KeyError, sc1)"
    by (cases sc1) auto
next
  assume a: "load_matrix float_of (Some ls) sc = (None, sc1) \<and> index_by_symbol sc1 = Some ix \<and>
    scoring_matrix sc1 = Some m \<and>
    str_split bad = symbol # row \<and> map_of ix symbol = Some r \<and> r < length m \<and>
    k < length row \<and> k \<le> length (m ! r) \<and>
    (\<forall>j < k. float_of (row ! j) \<noteq> None) \<and> float_of (row ! k) = None"
  then have "fill_row float_of r (enumerate 0 row) m =
     (Some ValueError,
      m[r := take 0 (m ! r) @ map (\<lambda>v. the (float_of v)) (take k row) @ drop (0 + k) (m ! r)])"
    by (intro fill_row_stops) auto
  with a have "fill_rows float_of ix [bad] m =
     (Some ValueError, m[r := map (\<lambda>v. the (float_of v)) (take k row) @ drop k (m ! r)])"
    by simp
  from load_matrix_failing_line[OF _ _ _ this, of ls sc sc1 post] a
  show "load_matrix float_of (Some (ls @ bad # post)) sc =
        (Some ValueError,
         sc1\<lparr>scoring_matrix :=
               Some (m[r := map (\<lambda>v. the (float_of v)) (take k row) @ drop k (m ! r)])\<rparr>)"
    by simp
qed


text \<open>The facts that evaluate \<open>load_matrix\<close> on a concrete file.\<close>

lemmas load_eval = load_matrix_def header_index_def str_split_def str_strip_def isspace_def
  py_float_def digits_val_def digit_val_def enumerate_eq_zip upt_conv_Cons
  default_scheme_def ScoringScheme_def

theorem load_matrix_fails_fast_keeps_partial_witness:
  "load_matrix py_float (Some [''# no header\<newline>'']) default_scheme =
     (Some IndexError, default_scheme) \<and>
   load_matrix py_float (Some [''A B\<newline>'', ''A 1 2\<newline>'', ''C 1 2\<newline>'', ''B 3 4\<newline>''])
       default_scheme =
     (Some KeyError, default_scheme\<lparr>index_by_symbol := Some [(''A'', 0), (''B'', 1)],
                                     scoring_matrix := Some [[1, 2], [0, 0]]\<rparr>) \<and>
   load_matrix py_float (Some [''A B\<newline>'', ''A 1 2\<newline>'', ''B 3 x\<newline>'']) default_scheme =
     (Some ValueError, default_scheme\<lparr>index_by_symbol := Some [(''A'', 0), (''B'', 1)],
                                       scoring_matrix := Some [[1, 2], [3, 0]]\<rparr>) \<and>
   load_matrix py_float (Some [''  \<newline>'']) default_scheme =
     (None, default_scheme\<lparr>index_by_symbol := Some [], scoring_matrix := Some []\<rparr>)"
proof -
  let ?ls = "[''A B\<newline>'', ''A 1 2\<newline>'']"
  let ?sc1 = "default_scheme\<lparr>index_by_symbol := Some [(''A'', 0), (''B'', 1)],
                            scoring_matrix := Some [[1, 2], [0, 0]]\<rparr>"
  have ok: "load_matrix py_float (Some ?ls) default_scheme = (None, ?sc1)"
    by (simp add: load_eval)
  note t = load_matrix_fails_fast_keeps_partial[where float_of = py_float
      and sc = default_scheme and ls = ?ls and ?sc1.0 = ?sc1 and ix = "[(''A'', 0), (''B'', 1)]"]
  from t[where lines = "[''# no header\<newline>'']"]
  have p1: "load_matrix py_float (Some [''# no header\<newline>'']) default_scheme =
     (Some IndexError, default_scheme)"
    by simp
  have "str_split ''C 1 2\<newline>'' = ''C'' # [''1'', ''2'']"
    by (simp add: str_split_def isspace_def)
  with t[where bad = "''C 1 2\<newline>''" and symbol = "''C''" and row = "[''1'', ''2'']"
      and post = "[''B 3 4\<newline>'']"] ok
  have p2: "load_matrix py_float (Some (?ls @ ''C 1 2\<newline>'' # [''B 3 4\<newline>''])) default_scheme =
     (Some KeyError, ?sc1)"
    by simp
  have "str_split ''B 3 x\<newline>'' = ''B'' # [''3'', ''x'']"
    by (simp add: str_split_def isspace_def)
  moreover have "py_float ''3'' = Some 3" "py_float ''x'' = None"
    by (simp_all add: py_float_def digits_val_def digit_val_def upt_conv_Cons)
  ultimately have p3: "load_matrix py_float (Some (?ls @ ''B 3 x\<newline>'' # [])) default_scheme =
     (Some ValueError, ?sc1\<lparr>scoring_matrix := Some [[1, 2], [3, 0]]\<rparr>)"
    using t[where bad = "''B 3 x\<newline>''" and symbol = "''B''" and row = "[''3'', ''x'']"
      and post = "[]" and m = "[[1, 2], [0, 0]]" and r = 1 and k = 1] ok
    by simp
  have "str_split ''  \<newline>'' = []"
    by (simp add: str_split_def isspace_def)
  with t[where headline = "''  \<newline>''"]
  have p4: "load_matrix py_float (Some [''  \<newline>'']) default_scheme =
     (None, default_scheme\<lparr>index_by_symbol := Some [], scoring_matrix := Some []\<rparr>)"
    by simp
  from p1 p2 p3 p4 show ?thesis by simp
qed

text \<open>
  The claim as stated fails: a file whose second line has a non-numeric field raises
  \<open>ValueError\<close> and leaves the scheme, which had no matrix, with the header's index and a
  matrix holding the field parsed before the failure; and a file whose header line is blank
  loads without an error.
\<close>

theorem failed_load_leaves_partial_matrix:
  "load_matrix py_float (Some [''A B\<newline>'', ''A 1 x\<newline>'', ''B 3 4\<newline>'']) default_scheme =
     (Some ValueError, default_scheme\<lparr>index_by_symbol := Some [(''A'', 0), (''B'', 1)],
                                       scoring_matrix := Some [[1, 0], [0, 0]]\<rparr>) \<and>
   index_by_symbol default_scheme = None \<and> scoring_matrix default_scheme = None \<and>
   load_matrix py_float (Some [''\<newline>'']) default_scheme =
     (None, default_scheme\<lparr>index_by_symbol := Some [], scoring_matrix := Some []\<rparr>)"
  by (simp add: load_eval)

subsection \<open>Loading a matrix: rows and values left out\<close>

lemma update_new_key:
  "k \<notin> fst ` set al \<Longrightarrow> AList.update k v al = al @ [(k, v)]"
  by (induction al) auto

lemma header_index_fold:
  "distinct (map str_strip toks) \<Longrightarrow>
   fold (\<lambda>(i, symbol) d. AList.update (str_strip symbol) i d) (enumerate 0 toks) [] =
   zip (map str_strip toks) [0..<length toks]"
proof (induction toks rule: rev_induct)
  case Nil
  then show ?case by simp
next
  case (snoc x xs)
  then have d: "distinct (map str_strip xs)" and new: "str_strip x \<notin> set (map str_strip xs)"
    by simp_all
  have "fst ` set (zip (map str_strip xs) [0..<length xs]) = set (map str_strip xs)"
    by (metis diff_zero length_map length_upt map_fst_zip set_map)
  with new have "str_strip x \<notin> fst ` set (zip (map str_strip xs) [0..<length xs])" by simp
  then show ?case
    using snoc.IH[OF d] by (simp add: enumerate_append_eq update_new_key)
qed

lemma header_index_distinct:
  "distinct (map str_strip (str_split headline)) \<Longrightarrow>
   header_index headline =
     zip (map str_strip (str_split headline)) [0..<length (str_split headline)]"
  unfolding header_index_def by (rule header_index_fold)

lemma fill_row_ok:
  assumes "r < length m" "n + length row \<le> length (m ! r)" "\<forall>v \<in> set row. float_of v \<noteq> None"
  shows "fill_row float_of r (enumerate n row) m =
     (None, m[r := take n (m ! r) @ map (\<lambda>v. the (float_of v)) row @
                    drop (n + length row) (m ! r)])"
  using assms
proof (induction row arbitrary: n m)
  case Nil
  then show ?case by simp
next
  case (Cons v row)
  from Cons.prems(3) obtain x where x: "float_of v = Some x" by fastforce
  let ?m = "m[r := (m ! r)[n := x]]"
  from Cons.prems have n: "n < length (m ! r)" by simp
  have "fill_row float_of r (enumerate (Suc n) row) ?m =
      (None, ?m[r := take (Suc n) (?m ! r) @ map (\<lambda>v. the (float_of v)) row @
                     drop (Suc n + length row) (?m ! r)])"
    using Cons.prems by (intro Cons.IH) auto
  moreover have "take (Suc n) ((m ! r)[n := x]) = take n (m ! r) @ [x]"
    using n by (simp add: take_Suc_conv_app_nth)
  ultimately show ?case
    using Cons.prems(1) n x by simp
qed

lemma fill_rows_ok:
  assumes idx: "\<And>s r. map_of ix s = Some r \<Longrightarrow> r < N"
  shows "length m = N \<Longrightarrow> \<forall>row \<in> set m. length row = N \<Longrightarrow>
     \<forall>line \<in> set lines. \<exists>symbol row. str_split line = symbol # row \<and>
        map_of ix symbol \<noteq> None \<and> length row \<le> N \<and> (\<forall>v \<in> set row. float_of v \<noteq> None) \<Longrightarrow>
     \<exists>m'. fill_rows float_of ix lines m = (None, m') \<and> length m' = N \<and>
          (\<forall>row \<in> set m'. length row = N) \<and>
          (\<forall>a b. a < N \<and> b < N \<and>
             (\<forall>line \<in> set lines. \<forall>symbol row. str_split line = symbol # row \<and>
                 map_of ix symbol = Some a \<longrightarrow> length row \<le> b) \<longrightarrow>
             m' ! a ! b = m ! a ! b)"
proof (induction lines arbitrary: m)
  case Nil
  then show ?case by simp
next
  case (Cons line lines)
  from Cons.prems(3) obtain symbol row r where sp: "str_split line = symbol # row"
    and r: "map_of ix symbol = Some r" and len: "length row \<le> N"
    and fl: "\<forall>v \<in> set row. float_of v \<noteq> None"
    by auto
  from idx[OF r] have rN: "r < N" .
  with Cons.prems have rm: "r < length m" and lr: "length (m ! r) = N" by simp_all
  let ?new = "map (\<lambda>v. the (float_of v)) row @ drop (length row) (m ! r)"
  let ?m1 = "m[r := ?new]"
  have fr: "fill_row float_of r (enumerate 0 row) m = (None, ?m1)"
    using fill_row_ok[of r m 0 row float_of] rm lr len fl by simp
  have lnew: "length ?new = N" using lr len by simp
  have l1: "length ?m1 = N" using Cons.prems(1) by simp
  have sq1: "\<forall>row \<in> set ?m1. length row = N"
    using Cons.prems(2) lnew by (auto dest!: set_update_subset_insert[THEN subsetD])
  from Cons.prems(3) have rest: "\<forall>line \<in> set lines. \<exists>symbol row. str_split line = symbol # row \<and>
        map_of ix symbol \<noteq> None \<and> length row \<le> N \<and> (\<forall>v \<in> set row. float_of v \<noteq> None)"
    by simp
  from Cons.IH[OF l1 sq1 rest] obtain m' where
    f': "fill_rows float_of ix lines ?m1 = (None, m')" and l': "length m' = N"
    and sq': "\<forall>row \<in> set m'. length row = N"
    and keep: "\<And>a b. a < N \<Longrightarrow> b < N \<Longrightarrow>
             (\<forall>line \<in> set lines. \<forall>symbol row. str_split line = symbol # row \<and>
                 map_of ix symbol = Some a \<longrightarrow> length row \<le> b) \<Longrightarrow>
             m' ! a ! b = ?m1 ! a ! b"
    by blast
  have "fill_rows float_of ix (line # lines) m = (None, m')"
    by (simp add: sp r fr f')
  moreover have "m' ! a ! b = m ! a ! b"
    if a: "a < N" and b: "b < N"
      and miss: "\<forall>l \<in> set (line # lines). \<forall>symbol row. str_split l = symbol # row \<and>
                 map_of ix symbol = Some a \<longrightarrow> length row \<le> b" for a b
  proof -
    from miss have "\<forall>line \<in> set lines. \<forall>symbol row. str_split line = symbol # row \<and>
                 map_of ix symbol = Some a \<longrightarrow> length row \<le> b" by (meson list.set_intros(2))
    then have "m' ! a ! b = ?m1 ! a ! b" by (rule keep[OF a b])
    also have "?m1 ! a ! b = m ! a ! b"
    proof (cases "a = r")
      case True
      with miss sp r have "length row \<le> b" by (meson list.set_intros(1))
      with True rm lr b show ?thesis by (simp add: nth_append)
    next
      case False
      then show ?thesis by simp
    qed
    finally show ?thesis .
  qed
  ultimately show ?case using l' sq' by blast
qed


text \<open>
  Claim C9 (as amended). Take a file whose header names pairwise distinct symbols and whose data lines each
  start with a header symbol followed by at most as many numeric fields as there are header
  symbols. Then \<open>load_matrix\<close> succeeds, and an entry \<open>(a, b)\<close> for which no data line of symbol
  \<open>a\<close> reaches column \<open>b\<close> (the row of \<open>a\<close> is omitted, or every row of \<open>a\<close> has at most \<open>b\<close>
  values) is \<open>0\<close> in the loaded matrix; scoring the two symbols afterwards returns \<open>0\<close>,
  provided neither is the gap symbol.
\<close>

theorem load_matrix_missing_entries:
  assumes hdr: "skip_comments lines = Inr (headline, rest)"
    and syms: "symbols = map str_strip (str_split headline)" and dist: "distinct symbols"
    and rows: "\<forall>line \<in> set rest. \<exists>symbol row. str_split line = symbol # row \<and>
        symbol \<in> set symbols \<and> length row \<le> length symbols \<and>
        (\<forall>v \<in> set row. float_of v \<noteq> None)"
    and a: "a < length symbols" and b: "b < length symbols"
    and missing: "\<forall>line \<in> set rest. \<forall>row. str_split line = symbols ! a # row \<longrightarrow>
        length row \<le> b"
  shows "\<exists>m. load_matrix float_of (Some lines) sc =
             (None, sc\<lparr>index_by_symbol := Some (zip symbols [0..<length symbols]),
                       scoring_matrix := Some m\<rparr>) \<and>
           length m = length symbols \<and> length (m ! a) = length symbols \<and> m ! a ! b = 0 \<and>
           (\<forall>c d. symbols ! a = [c] \<and> symbols ! b = [d] \<and> c \<noteq> gap \<and> d \<noteq> gap \<longrightarrow>
              score (sc\<lparr>index_by_symbol := Some (zip symbols [0..<length symbols]),
                       scoring_matrix := Some m\<rparr>) [c] [d] = Inr 0)"
proof -
  let ?N = "length symbols"
  let ?ix = "zip symbols [0..<?N]"
  let ?m0 = "replicate ?N (replicate ?N (0::real))"
  have ix: "header_index headline = ?ix"
    using dist by (simp add: syms header_index_distinct)
  have idx: "r < ?N" if "map_of ?ix s = Some r" for s r
    using map_of_SomeD[OF that] by (auto dest: set_zip_rightD)
  have at: "map_of ?ix (symbols ! i) = Some i" if "i < ?N" for i
    using that dist by (simp add: map_of_zip_nth)
  have only: "s = symbols ! r" if "map_of ?ix s = Some r" for s r
    using map_of_SomeD[OF that] by (auto simp: in_set_zip)
  have rows': "\<forall>line \<in> set rest. \<exists>symbol row. str_split line = symbol # row \<and>
        map_of ?ix symbol \<noteq> None \<and> length row \<le> ?N \<and> (\<forall>v \<in> set row. float_of v \<noteq> None)"
  proof
    fix line assume "line \<in> set rest"
    with rows obtain symbol row where "str_split line = symbol # row" "symbol \<in> set symbols"
      "length row \<le> ?N" "\<forall>v \<in> set row. float_of v \<noteq> None" by blast
    moreover from this(2) have "map_of ?ix symbol \<noteq> None"
      by (simp add: map_of_zip_is_None)
    ultimately show "\<exists>symbol row. str_split line = symbol # row \<and>
        map_of ?ix symbol \<noteq> None \<and> length row \<le> ?N \<and> (\<forall>v \<in> set row. float_of v \<noteq> None)"
      by blast
  qed
  have "\<exists>m'. fill_rows float_of ?ix rest ?m0 = (None, m') \<and> length m' = ?N \<and>
          (\<forall>row \<in> set m'. length row = ?N) \<and>
          (\<forall>a b. a < ?N \<and> b < ?N \<and>
             (\<forall>line \<in> set rest. \<forall>symbol row. str_split line = symbol # row \<and>
                 map_of ?ix symbol = Some a \<longrightarrow> length row \<le> b) \<longrightarrow>
             m' ! a ! b = ?m0 ! a ! b)"
  proof (rule fill_rows_ok[where N = ?N and ix = ?ix])
    show "\<And>s r. map_of ?ix s = Some r \<Longrightarrow> r < ?N" by (rule idx)
    show "length ?m0 = ?N" by simp
    show "\<forall>row \<in> set ?m0. length row = ?N" by simp
  qed (rule rows')
  then obtain m where f: "fill_rows float_of ?ix rest ?m0 = (None, m)" and lm: "length m = ?N"
    and sq: "\<forall>row \<in> set m. length row = ?N"
    and keep: "\<And>a b. a < ?N \<Longrightarrow> b < ?N \<Longrightarrow>
             (\<forall>line \<in> set rest. \<forall>symbol row. str_split line = symbol # row \<and>
                 map_of ?ix symbol = Some a \<longrightarrow> length row \<le> b) \<Longrightarrow>
             m ! a ! b = ?m0 ! a ! b"
    by auto
  have "\<forall>line \<in> set rest. \<forall>symbol row. str_split line = symbol # row \<and>
                 map_of ?ix symbol = Some a \<longrightarrow> length row \<le> b"
    using missing only by blast
  from keep[OF a b this] a b have zero: "m ! a ! b = 0" by simp
  from lm a sq have la: "length (m ! a) = ?N" by simp
  have load: "load_matrix float_of (Some lines) sc =
      (None, sc\<lparr>index_by_symbol := Some ?ix, scoring_matrix := Some m\<rparr>)"
    using hdr f by (simp add: load_matrix_Some ix)
  have "score (sc\<lparr>index_by_symbol := Some ?ix, scoring_matrix := Some m\<rparr>) [c] [d] = Inr 0"
    if "symbols ! a = [c] \<and> symbols ! b = [d] \<and> c \<noteq> gap \<and> d \<noteq> gap" for c d
    using that at[OF a] at[OF b] a b lm la zero by (simp add: score_single)
  with load lm la zero show ?thesis by blast
qed

theorem load_matrix_missing_entries_witness:
  "load_matrix py_float (Some [''# scores\<newline>'', ''A B C\<newline>'', ''A 1 2\<newline>'', ''B 3\<newline>''])
       default_scheme =
     (None, default_scheme\<lparr>index_by_symbol := Some [(''A'', 0), (''B'', 1), (''C'', 2)],
                              scoring_matrix := Some [[1, 2, 0], [3, 0, 0], [0, 0, 0]]\<rparr>) \<and>
   score (default_scheme\<lparr>index_by_symbol := Some [(''A'', 0), (''B'', 1), (''C'', 2)],
                          scoring_matrix := Some [[1, 2, 0], [3, 0, 0], [0, 0, 0]]\<rparr>) ''A'' ''C'' =
     Inr 0 \<and>
   score (default_scheme\<lparr>index_by_symbol := Some [(''A'', 0), (''B'', 1), (''C'', 2)],
                          scoring_matrix := Some [[1, 2, 0], [3, 0, 0], [0, 0, 0]]\<rparr>) ''C'' ''A'' =
     Inr 0"
proof -
  let ?lines = "[''# scores\<newline>'', ''A B C\<newline>'', ''A 1 2\<newline>'', ''B 3\<newline>'']"
  let ?sc' = "default_scheme\<lparr>index_by_symbol := Some [(''A'', 0), (''B'', 1), (''C'', 2)],
                          scoring_matrix := Some [[1, 2, 0], [3, 0, 0], [0, 0, 0]]\<rparr>"
  have ev: "load_matrix py_float (Some ?lines) default_scheme = (None, ?sc')"
    by (simp add: load_eval)
  have hdr: "skip_comments ?lines = Inr (''A B C\<newline>'', [''A 1 2\<newline>'', ''B 3\<newline>''])"
    by simp
  have syms: "[''A'', ''B'', ''C''] = map str_strip (str_split ''A B C\<newline>'')"
    by (simp add: str_split_def str_strip_def isspace_def)
  have dist: "distinct [''A'', ''B'', ''C'']" by simp
  have rows: "\<forall>line \<in> set [''A 1 2\<newline>'', ''B 3\<newline>'']. \<exists>symbol row. str_split line = symbol # row \<and>
        symbol \<in> set [''A'', ''B'', ''C''] \<and> length row \<le> length [''A'', ''B'', ''C''] \<and>
        (\<forall>v \<in> set row. py_float v \<noteq> None)"
    by (simp add: str_split_def isspace_def py_float_def digits_val_def digit_val_def
        upt_conv_Cons)
  have short: "\<forall>line \<in> set [''A 1 2\<newline>'', ''B 3\<newline>''].
      \<forall>row. str_split line = [''A'', ''B'', ''C''] ! 0 # row \<longrightarrow> length row \<le> 2"
    by (auto simp: str_split_def isspace_def)
  have omitted: "\<forall>line \<in> set [''A 1 2\<newline>'', ''B 3\<newline>''].
      \<forall>row. str_split line = [''A'', ''B'', ''C''] ! 2 # row \<longrightarrow> length row \<le> 0"
    by (auto simp: str_split_def isspace_def)
  from load_matrix_missing_entries[OF hdr syms dist rows _ _ short, of default_scheme] ev
  have "score ?sc' ''A'' ''C'' = Inr 0" by (auto simp: gap_def upt_conv_Cons)
  moreover
  from load_matrix_missing_entries[OF hdr syms dist rows _ _ omitted, of default_scheme] ev
  have "score ?sc' ''C'' ''A'' = Inr 0" by (auto simp: gap_def upt_conv_Cons)
  ultimately show ?thesis using ev by simp
qed

text \<open>
  The claim as stated fails without these conditions. A header that repeats a symbol,
  \<open>"A A B"\<close>, gives \<open>B\<close> the index 2 in a matrix of 2 rows: the file loads, the row of \<open>B\<close> is
  left out, and scoring \<open>B\<close> against \<open>A\<close> raises \<open>IndexError\<close>. A header that names the gap
  symbol, \<open>"A -"\<close>, loads as well, and scoring the gap symbol against \<open>A\<close> returns
  \<open>gap_penalty\<close>, not the entry \<open>0\<close> of the matrix.
\<close>

theorem repeated_header_symbol_lookup_raises:
  "load_matrix py_float (Some [''A A B\<newline>'', ''A 1 2\<newline>'']) default_scheme =
     (None, default_scheme\<lparr>index_by_symbol := Some [(''A'', 1), (''B'', 2)],
                              scoring_matrix := Some [[0, 0], [1, 2]]\<rparr>) \<and>
   score (default_scheme\<lparr>index_by_symbol := Some [(''A'', 1), (''B'', 2)],
                          scoring_matrix := Some [[0, 0], [1, 2]]\<rparr>) ''B'' ''A'' =
     Inl IndexError \<and>
   load_matrix py_float (Some [''A -\<newline>'']) default_scheme =
     (None, default_scheme\<lparr>index_by_symbol := Some [(''A'', 0), (''-'', 1)],
                              scoring_matrix := Some [[0, 0], [0, 0]]\<rparr>) \<and>
   score (default_scheme\<lparr>index_by_symbol := Some [(''A'', 0), (''-'', 1)],
                          scoring_matrix := Some [[0, 0], [0, 0]]\<rparr>) ''-'' ''A'' =
     Inr (- 1)"
  by (simp add: load_eval score_single gap_def)

end
